theory Spec2Isabelle
  imports Complex_Main "HOL-Library.Word"
begin

section \<open>The LRU cache of lru\_cache.h\<close>

text \<open>
  The header defines \<open>LRUCache<Key, Value>\<close>, a cache made of a \<open>std::list\<close> of
  pointers to heap-allocated \<open>LRUHandle\<close> objects and a \<open>std::unordered_map\<close> from
  keys to iterators of that list, and \<open>SharedLRUCache\<close>, sixteen such caches selected by
  the hash of the key.

  The embedding keeps what the C++ relies on:
  \<^item> \<open>size_t\<close> is a 64-bit word, so \<open>usage_ += charge\<close>, \<open>usage_ -= charge\<close>,
    \<open>++refs\<close> and \<open>--refs\<close> wrap around;
  \<^item> handles live in an explicit heap; \<open>new\<close> takes the next address, which is never
    handed out again, and \<open>delete\<close> empties the cell, so that a pointer to a deleted
    handle stays dangling;
  \<^item> a \<open>std::list\<close> is the sequence of its nodes, each with an identity; an iterator is
    the identity of a node. \<open>erase\<close> destroys the node, which invalidates the iterators
    that refer to it and no others; \<open>insert\<close> makes a new node with a new identity, so
    that an invalid iterator stays invalid;
  \<^item> a failed \<open>assert\<close> is the error \<open>AssertFailure\<close> (the asserts are taken as
    compiled in); dereferencing a null or dangling handle is \<open>InvalidHandle\<close>, using
    an invalid list iterator is \<open>InvalidIterator\<close>. The last two are undefined
    behaviour in C++; the model stops there.
\<close>

subsection \<open>Data\<close>

type_synonym size_t = "64 word"

text \<open>\<open>struct LRUHandle\<close>; the field \<open>value\<close> is called \<open>val\<close> here.\<close>

record ('k, 'v) LRUHandle =
  key :: 'k
  val :: 'v
  refs :: size_t
  charge :: size_t

text \<open>\<open>LRUHandle*\<close>.\<close>

datatype handle_ptr = nullptr | Addr nat

datatype error = AssertFailure | InvalidHandle | InvalidIterator

record ('k, 'v) heap =
  cells :: "nat \<Rightarrow> ('k, 'v) LRUHandle option"
  next_addr :: nat

text \<open>\<open>CacheList::iterator\<close>: the identity of a list node.\<close>

type_synonym iterator = nat

text \<open>\<open>CacheList\<close>: the nodes from \<open>begin()\<close> to the back, each with its element.\<close>

type_synonym CacheList = "(iterator \<times> handle_ptr) list"

record 'k LRUCache =
  usage :: size_t
  capacity :: size_t
  lru :: CacheList
  table :: "'k \<Rightarrow> iterator option"
  next_node :: nat

type_synonym ('k, 'v) state = "('k, 'v) heap \<times> 'k LRUCache"

subsection \<open>The heap\<close>

fun deref :: "('k, 'v) heap \<Rightarrow> handle_ptr \<Rightarrow> ('k, 'v) LRUHandle option" where
  "deref h nullptr = None"
| "deref h (Addr a) = cells h a"

text \<open>\<open>new LRUHandle(k, v, c)\<close>: \<open>refs\<close> has the default member initialiser 2.\<close>

definition new_handle ::
  "'k \<Rightarrow> 'v \<Rightarrow> size_t \<Rightarrow> ('k, 'v) heap \<Rightarrow> handle_ptr \<times> ('k, 'v) heap" where
  "new_handle k v c h =
     (Addr (next_addr h),
      h\<lparr>cells := (cells h)(next_addr h \<mapsto> \<lparr>key = k, val = v, refs = 2, charge = c\<rparr>),
        next_addr := Suc (next_addr h)\<rparr>)"

fun store :: "handle_ptr \<Rightarrow> ('k, 'v) LRUHandle \<Rightarrow> ('k, 'v) heap \<Rightarrow> ('k, 'v) heap" where
  "store nullptr e h = h"
| "store (Addr a) e h = h\<lparr>cells := (cells h)(a \<mapsto> e)\<rparr>"

fun delete :: "handle_ptr \<Rightarrow> ('k, 'v) heap \<Rightarrow> ('k, 'v) heap" where
  "delete nullptr h = h"
| "delete (Addr a) h = h\<lparr>cells := (cells h)(a := None)\<rparr>"

subsection \<open>The list\<close>

text \<open>\<open>*it\<close>: defined only for the iterator of a node of the list.\<close>

definition list_deref :: "CacheList \<Rightarrow> iterator \<Rightarrow> handle_ptr option" where
  "list_deref l it = map_of l it"

text \<open>\<open>l.erase(it)\<close>: defined only for the iterator of a node of the list.\<close>

definition list_erase :: "iterator \<Rightarrow> CacheList \<Rightarrow> CacheList option" where
  "list_erase it l =
     (if it \<in> fst ` set l then Some (filter (\<lambda>n. fst n \<noteq> it) l) else None)"

text \<open>\<open>lru_.insert(lru_.begin(), handle)\<close>: a new node in front.\<close>

definition insert_front :: "handle_ptr \<Rightarrow> 'k LRUCache \<Rightarrow> iterator \<times> 'k LRUCache" where
  "insert_front handle c =
     (next_node c, c\<lparr>lru := (next_node c, handle) # lru c, next_node := Suc (next_node c)\<rparr>)"

text \<open>\<open>it != lru_.begin()\<close>.\<close>

definition at_begin :: "CacheList \<Rightarrow> iterator \<Rightarrow> bool" where
  "at_begin l it = (case l of [] \<Rightarrow> False | n # _ \<Rightarrow> fst n = it)"

subsection \<open>LRUCache\<close>

text \<open>\<open>LRUCache()\<close> followed by \<open>set_capacity\<close>.\<close>

definition LRUCache_new :: "'k LRUCache" where
  "LRUCache_new =
     \<lparr>usage = 0, capacity = 0, lru = [], table = (\<lambda>_. None), next_node = 0\<rparr>"

definition set_capacity :: "size_t \<Rightarrow> 'k LRUCache \<Rightarrow> 'k LRUCache" where
  "set_capacity n c = c\<lparr>capacity := n\<rparr>"

definition empty_heap :: "('k, 'v) heap" where
  "empty_heap = \<lparr>cells = (\<lambda>_. None), next_addr = 0\<rparr>"

text \<open>\<open>Release\<close> (lines 139-149).\<close>

fun Release :: "handle_ptr \<Rightarrow> ('k, 'v) state \<Rightarrow> error + ('k, 'v) state" where
  "Release handle (h, c) =
     (case deref h handle of
        None \<Rightarrow> Inl InvalidHandle
      | Some e \<Rightarrow>
          if \<not> 0 < refs e then Inl AssertFailure
          else if refs e - 1 = 0
            then Inr (delete handle h, c\<lparr>usage := usage c - charge e\<rparr>)
            else Inr (store handle (e\<lparr>refs := refs e - 1\<rparr>) h, c))"

text \<open>The eviction loop of \<open>Insert\<close> (lines 109-115).\<close>

function evict :: "('k, 'v) state \<Rightarrow> error + ('k, 'v) state" where
  "evict (h, c) =
     (if capacity c < usage c \<and> lru c \<noteq> [] then
        (let back = snd (last (lru c)) in
         case deref h back of
           None \<Rightarrow> Inl InvalidHandle
         | Some e \<Rightarrow>
             (case Release back
                     (h, c\<lparr>table := (table c)(key e := None), lru := butlast (lru c)\<rparr>) of
                Inl err \<Rightarrow> Inl err
              | Inr s \<Rightarrow> evict s))
      else Inr (h, c))"
  by pat_completeness auto

termination evict
proof (relation "measure (\<lambda>s. length (lru (snd s)))")
  show "wf (measure (\<lambda>s. length (lru (snd s))))"
    by simp
next
  fix h :: "('k, 'v) heap" and c :: "'k LRUCache" and p and e :: "('k, 'v) LRUHandle" and s
  assume nonempty: "capacity c < usage c \<and> lru c \<noteq> []"
    and rel: "Release p (h, c\<lparr>table := (table c)(key e := None), lru := butlast (lru c)\<rparr>)
               = Inr s"
  from rel have "lru (snd s) = butlast (lru c)"
    by (auto split: option.splits if_splits)
  with nonempty show "(s, (h, c)) \<in> measure (\<lambda>s. length (lru (snd s)))"
    by (cases "lru c" rule: rev_cases) auto
qed

declare evict.simps [simp del]

text \<open>\<open>Insert\<close> (lines 86-117).\<close>

definition Insert ::
  "'k \<Rightarrow> 'v \<Rightarrow> size_t \<Rightarrow> ('k, 'v) state \<Rightarrow> error + (handle_ptr \<times> ('k, 'v) state)" where
  "Insert k v ch s =
     (case s of (h, c) \<Rightarrow>
      (case new_handle k v ch h of (handle, h1) \<Rightarrow>
       if handle = nullptr then Inl AssertFailure
       else
        (case
           (case table c k of
              None \<Rightarrow> Inr (h1, c)
            | Some it \<Rightarrow>
                (case list_erase it (lru c) of
                   None \<Rightarrow> Inl InvalidIterator
                 | Some l \<Rightarrow>
                     (let c1 = c\<lparr>lru := l, table := (table c)(k := None)\<rparr> in
                      case list_deref (lru c1) it of
                        None \<Rightarrow> Inl InvalidIterator
                      | Some old \<Rightarrow> Release old (h1, c1)))) of
           Inl err \<Rightarrow> Inl err
         | Inr (h2, c2) \<Rightarrow>
             (case insert_front handle c2 of (pos, c3) \<Rightarrow>
              if table c3 k \<noteq> None then Inl AssertFailure
              else
               (case evict (h2, c3\<lparr>table := (table c3)(k \<mapsto> pos),
                                    usage := usage c3 + ch\<rparr>) of
                  Inl err \<Rightarrow> Inl err
                | Inr s' \<Rightarrow> Inr (handle, s'))))))"

text \<open>\<open>Lookup\<close> (lines 119-137); \<open>nullptr\<close> is the not-found result.\<close>

definition Lookup :: "'k \<Rightarrow> ('k, 'v) state \<Rightarrow> error + (handle_ptr \<times> ('k, 'v) state)" where
  "Lookup k s =
     (case s of (h, c) \<Rightarrow>
      (case table c k of
         None \<Rightarrow> Inr (nullptr, h, c)
       | Some it \<Rightarrow>
           (case list_deref (lru c) it of
              None \<Rightarrow> Inl InvalidIterator
            | Some handle \<Rightarrow>
                (case
                   (if \<not> at_begin (lru c) it then
                      (case list_erase it (lru c) of
                         None \<Rightarrow> Inl InvalidIterator
                       | Some l \<Rightarrow> Inr (snd (insert_front handle (c\<lparr>lru := l\<rparr>))))
                    else Inr c) of
                   Inl err \<Rightarrow> Inl err
                 | Inr c1 \<Rightarrow>
                     (case deref h handle of
                        None \<Rightarrow> Inl InvalidHandle
                      | Some e \<Rightarrow>
                          Inr (handle, store handle (e\<lparr>refs := refs e + 1\<rparr>) h, c1))))))"

text \<open>\<open>Erase\<close> (lines 151-162).\<close>

definition Erase :: "'k \<Rightarrow> ('k, 'v) state \<Rightarrow> error + ('k, 'v) state" where
  "Erase k s =
     (case s of (h, c) \<Rightarrow>
      (case table c k of
         None \<Rightarrow> Inr (h, c)
       | Some it \<Rightarrow>
           (case list_deref (lru c) it of
              None \<Rightarrow> Inl InvalidIterator
            | Some handle \<Rightarrow>
                (case Release handle (h, c) of
                   Inl err \<Rightarrow> Inl err
                 | Inr (h1, c1) \<Rightarrow>
                     (case list_erase it (lru c1) of
                        None \<Rightarrow> Inl InvalidIterator
                      | Some l \<Rightarrow>
                          Inr (h1, c1\<lparr>lru := l, table := (table c1)(k := None)\<rparr>))))))"

text \<open>
  \<open>Prune\<close> (lines 164-179). The range-for visits the elements of \<open>lru_\<close>, which the
  body never changes: the loop runs over the elements the list had on entry.
\<close>

fun prune_loop :: "handle_ptr list \<Rightarrow> ('k, 'v) state \<Rightarrow> error + ('k, 'v) state" where
  "prune_loop [] s = Inr s"
| "prune_loop (it # rest) (h, c) =
     (case deref h it of
        None \<Rightarrow> Inl InvalidHandle
      | Some e \<Rightarrow>
          if refs e = 1 then
            (case Release it (h, c\<lparr>table := (table c)(key e := None)\<rparr>) of
               Inl err \<Rightarrow> Inl err
             | Inr s' \<Rightarrow> prune_loop rest s')
          else prune_loop rest (h, c))"

definition Prune :: "('k, 'v) state \<Rightarrow> error + ('k, 'v) state" where
  "Prune s = prune_loop (map snd (lru (snd s))) s"

subsection \<open>SharedLRUCache\<close>

definition kNumShardBits :: nat where
  "kNumShardBits = 4"

text \<open>\<open>1 << kNumShardBits\<close>.\<close>

definition kNumShards :: nat where
  "kNumShards = push_bit kNumShardBits 1"

text \<open>
  \<open>(capacity + kNumShards - 1) / kNumShards\<close> in the constructor (line 190): the
  \<open>int\<close> constant is converted to \<open>size_t\<close>, the sum is taken in \<open>size_t\<close>.
\<close>

definition per_capacity :: "size_t \<Rightarrow> size_t" where
  "per_capacity n = (n + of_nat kNumShards - 1) div of_nat kNumShards"

text \<open>The constructor: \<open>kNumShards\<close> default-constructed caches, each given the capacity.\<close>

definition SharedLRUCache_new :: "size_t \<Rightarrow> 'k LRUCache list" where
  "SharedLRUCache_new n =
     map (set_capacity (per_capacity n)) (replicate kNumShards LRUCache_new)"

text \<open>\<open>Shard(hash)\<close> (lines 243-246).\<close>

definition Shard :: "size_t \<Rightarrow> nat" where
  "Shard hash = unat (hash mod of_nat kNumShards)"

text \<open>
  The shards share the heap of the process. \<open>HashSlice\<close> is \<open>std::hash<Key>\<close>, which
  the key type supplies: it is a parameter of the operations.
\<close>

type_synonym ('k, 'v) shared = "('k, 'v) heap \<times> 'k LRUCache list"

definition SharedLRUCache_Insert ::
  "('k \<Rightarrow> size_t) \<Rightarrow> 'k \<Rightarrow> 'v \<Rightarrow> size_t \<Rightarrow> ('k, 'v) shared
    \<Rightarrow> error + (handle_ptr \<times> ('k, 'v) shared)" where
  "SharedLRUCache_Insert HashSlice k v ch s =
     (case s of (h, shard) \<Rightarrow>
      (let i = Shard (HashSlice k) in
       case Insert k v ch (h, shard ! i) of
         Inl err \<Rightarrow> Inl err
       | Inr (handle, h', c') \<Rightarrow> Inr (handle, h', shard[i := c'])))"

definition SharedLRUCache_LookUp ::
  "('k \<Rightarrow> size_t) \<Rightarrow> 'k \<Rightarrow> ('k, 'v) shared \<Rightarrow> error + (handle_ptr \<times> ('k, 'v) shared)" where
  "SharedLRUCache_LookUp HashSlice k s =
     (case s of (h, shard) \<Rightarrow>
      (let i = Shard (HashSlice k) in
       case Lookup k (h, shard ! i) of
         Inl err \<Rightarrow> Inl err
       | Inr (handle, h', c') \<Rightarrow> Inr (handle, h', shard[i := c'])))"

text \<open>\<open>Release\<close> reads \<open>handle->key\<close> before it selects the shard.\<close>

definition SharedLRUCache_Release ::
  "('k \<Rightarrow> size_t) \<Rightarrow> handle_ptr \<Rightarrow> ('k, 'v) shared \<Rightarrow> error + ('k, 'v) shared" where
  "SharedLRUCache_Release HashSlice handle s =
     (case s of (h, shard) \<Rightarrow>
      (case deref h handle of
         None \<Rightarrow> Inl InvalidHandle
       | Some e \<Rightarrow>
           (let i = Shard (HashSlice (key e)) in
            case Release handle (h, shard ! i) of
              Inl err \<Rightarrow> Inl err
            | Inr (h', c') \<Rightarrow> Inr (h', shard[i := c']))))"

definition SharedLRUCache_Erase ::
  "('k \<Rightarrow> size_t) \<Rightarrow> 'k \<Rightarrow> ('k, 'v) shared \<Rightarrow> error + ('k, 'v) shared" where
  "SharedLRUCache_Erase HashSlice k s =
     (case s of (h, shard) \<Rightarrow>
      (let i = Shard (HashSlice k) in
       case Erase k (h, shard ! i) of
         Inl err \<Rightarrow> Inl err
       | Inr (h', c') \<Rightarrow> Inr (h', shard[i := c'])))"

fun prune_shards :: "'k LRUCache list \<Rightarrow> ('k, 'v) heap \<Rightarrow> error + ('k, 'v) shared" where
  "prune_shards [] h = Inr (h, [])"
| "prune_shards (c # cs) h =
     (case Prune (h, c) of
        Inl err \<Rightarrow> Inl err
      | Inr (h1, c1) \<Rightarrow>
          (case prune_shards cs h1 of
             Inl err \<Rightarrow> Inl err
           | Inr (h2, cs') \<Rightarrow> Inr (h2, c1 # cs')))"

definition SharedLRUCache_Prune :: "('k, 'v) shared \<Rightarrow> error + ('k, 'v) shared" where
  "SharedLRUCache_Prune s = prune_shards (snd s) (fst s)"

subsection \<open>Sequences of calls on one cache\<close>

datatype ('k, 'v) op =
  OpInsert 'k 'v size_t | OpLookup 'k | OpRelease handle_ptr | OpErase 'k | OpPrune

text \<open>One call; the calls that return nothing give \<open>nullptr\<close>.\<close>

fun step :: "('k, 'v) op \<Rightarrow> ('k, 'v) state \<Rightarrow> error + (handle_ptr \<times> ('k, 'v) state)" where
  "step (OpInsert k v ch) s = Insert k v ch s"
| "step (OpLookup k) s = Lookup k s"
| "step (OpRelease p) s = map_sum id (Pair nullptr) (Release p s)"
| "step (OpErase k) s = map_sum id (Pair nullptr) (Erase k s)"
| "step OpPrune s = map_sum id (Pair nullptr) (Prune s)"

fun run :: "('k, 'v) op list \<Rightarrow> ('k, 'v) state \<Rightarrow> error + ('k, 'v) state" where
  "run [] s = Inr s"
| "run (x # xs) s = (case step x s of Inl err \<Rightarrow> Inl err | Inr (r, s') \<Rightarrow> run xs s')"

text \<open>A cache of the given capacity on an empty heap.\<close>

definition init :: "size_t \<Rightarrow> ('k, 'v) state" where
  "init n = (empty_heap, set_capacity n LRUCache_new)"

section \<open>What the claims measure\<close>

subsection \<open>Failure\<close>

text \<open>
  A call fails fatally when an \<open>assert\<close> of the source fails: the program is aborted.
  The errors \<open>InvalidHandle\<close> and \<open>InvalidIterator\<close> are no such failure: they
  mark a read that the source makes without any check and that C++ leaves undefined.
\<close>

definition fails_fatally :: "error + 'a \<Rightarrow> bool" where
  "fails_fatally r \<longleftrightarrow> r = Inl AssertFailure"

subsection \<open>Charges, keys and pins\<close>

text \<open>The charge of the handle a pointer refers to; 0 when there is no such handle.\<close>

definition charge_at :: "('k, 'v) heap \<Rightarrow> handle_ptr \<Rightarrow> nat" where
  "charge_at h p = (case deref h p of None \<Rightarrow> 0 | Some e \<Rightarrow> unat (charge e))"

text \<open>The charges of all handles that have not been deleted, as a natural number.\<close>

definition live_charge :: "('k, 'v) heap \<Rightarrow> nat" where
  "live_charge h = (\<Sum>a<next_addr h. charge_at h (Addr a))"

text \<open>The charges of the entries in \<open>lru_\<close>, as a natural number.\<close>

definition registered_charge :: "('k, 'v) state \<Rightarrow> nat" where
  "registered_charge s = (\<Sum>p\<leftarrow>map snd (lru (snd s)). charge_at (fst s) p)"

text \<open>The charge a call adds to the cache.\<close>

fun op_charge :: "('k, 'v) op \<Rightarrow> nat" where
  "op_charge (OpInsert k v ch) = unat ch"
| "op_charge _ = 0"

text \<open>\<open>Lookup\<close> returns a handle.\<close>

definition found :: "'k \<Rightarrow> ('k, 'v) state \<Rightarrow> bool" where
  "found k s = (case Lookup k s of Inl err \<Rightarrow> False | Inr (p, s') \<Rightarrow> p \<noteq> nullptr)"

text \<open>The keys of the entries in \<open>lru_\<close>.\<close>

definition registered_keys :: "('k, 'v) state \<Rightarrow> 'k list" where
  "registered_keys s =
     concat (map (\<lambda>p. case deref (fst s) p of None \<Rightarrow> [] | Some e \<Rightarrow> [key e])
       (map snd (lru (snd s))))"

text \<open>
  No entry is pinned by a caller: every element of \<open>lru_\<close> is a live handle with
  \<open>refs = 1\<close>, and \<open>usage_\<close> counts their charges and nothing else.
\<close>

definition unpinned :: "('k, 'v) state \<Rightarrow> bool" where
  "unpinned s \<longleftrightarrow>
     list_all (\<lambda>p. case deref (fst s) p of None \<Rightarrow> False | Some e \<Rightarrow> refs e = 1)
       (map snd (lru (snd s))) \<and>
     unat (usage (snd s)) = registered_charge s"

subsection \<open>The time of the last touch\<close>

text \<open>
  An entry is touched by the \<open>Insert\<close> that creates it and by every \<open>Lookup\<close> that
  returns it. \<open>touch x r t T\<close> records in \<open>T\<close> that the call \<open>x\<close>, made at time
  \<open>t\<close>, returned \<open>r\<close>; \<open>run_clock\<close> runs a sequence of calls and counts them.
\<close>

definition touch ::
  "('k, 'v) op \<Rightarrow> handle_ptr \<Rightarrow> nat \<Rightarrow> (handle_ptr \<Rightarrow> nat) \<Rightarrow> handle_ptr \<Rightarrow> nat" where
  "touch x r t T =
     (case x of
        OpInsert k v ch \<Rightarrow> T(r := t)
      | OpLookup k \<Rightarrow> if r = nullptr then T else T(r := t)
      | _ \<Rightarrow> T)"

fun run_clock ::
  "('k, 'v) op list \<Rightarrow> nat \<times> (handle_ptr \<Rightarrow> nat) \<times> ('k, 'v) state
    \<Rightarrow> error + (nat \<times> (handle_ptr \<Rightarrow> nat) \<times> ('k, 'v) state)" where
  "run_clock [] x = Inr x"
| "run_clock (x # xs) (t, T, s) =
     (case step x s of
        Inl err \<Rightarrow> Inl err
      | Inr (r, s') \<Rightarrow> run_clock xs (Suc t, touch x r t T, s'))"

subsection \<open>Invariants\<close>

text \<open>Nothing lives at an address that \<open>new\<close> has not handed out yet.\<close>

definition heap_ok :: "('k, 'v) heap \<Rightarrow> bool" where
  "heap_ok h \<longleftrightarrow> (\<forall>a. next_addr h \<le> a \<longrightarrow> cells h a = None)"

text \<open>\<open>usage_\<close> is the sum of the charges of the live handles, in \<open>size_t\<close>.\<close>

definition acct :: "('k, 'v) state \<Rightarrow> bool" where
  "acct s \<longleftrightarrow> heap_ok (fst s) \<and> usage (snd s) = of_nat (live_charge (fst s))"

text \<open>The elements of \<open>lru_\<close> are distinct pointers that \<open>new\<close> has handed out.\<close>

definition lru_ok :: "('k, 'v) state \<Rightarrow> bool" where
  "lru_ok s \<longleftrightarrow> distinct (map snd (lru (snd s))) \<and>
     (\<forall>p\<in>snd ` set (lru (snd s)). \<exists>a<next_addr (fst s). p = Addr a)"

text \<open>The live charges stay within \<open>B\<close>, the charges inserted so far.\<close>

definition budget :: "nat \<Rightarrow> ('k, 'v) state \<Rightarrow> bool" where
  "budget B s \<longleftrightarrow> acct s \<and> live_charge (fst s) \<le> B"

text \<open>The invariant behind the capacity bound: what the eviction loop leaves.\<close>

definition capacity_inv :: "nat \<Rightarrow> ('k, 'v) state \<Rightarrow> bool" where
  "capacity_inv B s \<longleftrightarrow> budget B s \<and> lru_ok s \<and>
     (live_charge (fst s) \<le> unat (capacity (snd s)) \<or> lru (snd s) = [])"

text \<open>
  \<open>table_\<close> against \<open>lru_\<close>. \<open>K a\<close> is the key the handle at address \<open>a\<close>
  was made with; it stays known after the handle is deleted. The nodes of \<open>lru_\<close> have
  distinct identities, all handed out already; every key of \<open>table_\<close> is the key of an
  element of \<open>lru_\<close>, and an iterator of \<open>table_\<close> that is still valid refers to
  an element with that key.
\<close>

definition keyed :: "(nat \<Rightarrow> 'k) \<Rightarrow> ('k, 'v) state \<Rightarrow> bool" where
  "keyed K s \<longleftrightarrow>
     (\<forall>a e. cells (fst s) a = Some e \<longrightarrow> key e = K a) \<and>
     distinct (map fst (lru (snd s))) \<and>
     (\<forall>n\<in>fst ` set (lru (snd s)). n < next_node (snd s)) \<and>
     (\<forall>k it. table (snd s) k = Some it \<longrightarrow>
        it < next_node (snd s) \<and>
        (\<exists>n a. (n, Addr a) \<in> set (lru (snd s)) \<and> K a = k) \<and>
        (\<forall>a. (it, Addr a) \<in> set (lru (snd s)) \<longrightarrow> K a = k))"

text \<open>What the loops of \<open>Insert\<close> and \<open>Prune\<close> never change.\<close>

definition same_frame :: "'k LRUCache \<Rightarrow> ('k, 'v) heap \<Rightarrow> ('k, 'v) state \<Rightarrow> bool" where
  "same_frame c h s \<longleftrightarrow> capacity (snd s) = capacity c \<and> next_node (snd s) = next_node c \<and>
     next_addr (fst s) = next_addr h"

text \<open>\<open>lru_\<close> runs from the entry touched last to the entry touched first.\<close>

definition by_recency :: "nat \<Rightarrow> (handle_ptr \<Rightarrow> nat) \<Rightarrow> ('k, 'v) state \<Rightarrow> bool" where
  "by_recency t T s \<longleftrightarrow> lru_ok s \<and>
     sorted_wrt (\<lambda>p q. T q < T p) (map snd (lru (snd s))) \<and>
     (\<forall>p\<in>snd ` set (lru (snd s)). T p < t)"

text \<open>
  Between two heaps: every handle of the first is unchanged in the second, or it is one of
  \<open>L\<close> and has lost one pin (and is gone if that was its last); nothing is allocated.
\<close>

definition released_once :: "handle_ptr set \<Rightarrow> ('k, 'v) heap \<Rightarrow> ('k, 'v) heap \<Rightarrow> bool" where
  "released_once L h h' \<longleftrightarrow>
     (\<forall>a. case cells h a of
            None \<Rightarrow> cells h' a = None
          | Some e \<Rightarrow>
              cells h' a = Some e \<or>
              (Addr a \<in> L \<and>
               cells h' a = (if refs e = 1 then None else Some (e\<lparr>refs := refs e - 1\<rparr>))))"

section \<open>Evaluation on concrete calls\<close>

lemmas cache_defs =
  Insert_def Lookup_def Erase_def Prune_def new_handle_def insert_front_def list_erase_def
  list_deref_def at_begin_def evict.simps init_def empty_heap_def LRUCache_new_def
  set_capacity_def Let_def delete.simps store.simps

section \<open>Release\<close>

lemma Release_Inl_iff:
  "isl (Release p (h, c)) \<longleftrightarrow> (case deref h p of None \<Rightarrow> True | Some e \<Rightarrow> refs e = 0)"
  by (auto simp: word_gt_0 split: option.splits)

lemma deref_delete:
  "p \<noteq> nullptr \<Longrightarrow> deref (delete p h) q = (if q = p then None else deref h q)"
  by (cases p; cases q) auto

lemma deref_store:
  "p \<noteq> nullptr \<Longrightarrow> deref (store p e h) q = (if q = p then Some e else deref h q)"
  by (cases p; cases q) auto

lemma next_addr_delete: "next_addr (delete p h) = next_addr h"
  by (cases p) auto

lemma next_addr_store: "next_addr (store p e h) = next_addr h"
  by (cases p) auto

declare delete.simps [simp del] store.simps [simp del]

lemma deref_nullptr_iff: "deref h p = Some e \<Longrightarrow> p \<noteq> nullptr"
  by (cases p) auto

text \<open>
  \<open>Insert\<close> on a key that is in \<open>table_\<close> erases the node and then reads \<open>*it\<close>
  (line 99): whatever the state, the call ends in the use of an invalid iterator.
  \<open>Erase\<close> reads \<open>*it\<close> before it erases the node. Every \<open>Insert\<close> that returns
  is therefore an insert of a key that was not registered.
\<close>

lemma map_of_filter_fst: "map_of (filter (\<lambda>n. fst n \<noteq> it) l) it = None"
  by (induction l) auto

lemma Insert_registered:
  "table c k \<noteq> None \<Longrightarrow> Insert k v ch (h, c) = Inl InvalidIterator"
  by (auto simp: Insert_def new_handle_def list_erase_def list_deref_def map_of_filter_fst
      split: option.splits)

section \<open>The effect of each call\<close>

subsection \<open>What a call that returns has done\<close>

lemma Release_Inr:
  assumes "Release p (h, c) = Inr (h', c')"
  shows "\<exists>a e. p = Addr a \<and> cells h a = Some e \<and> refs e \<noteq> 0 \<and>
    (if refs e = 1
     then h' = h\<lparr>cells := (cells h)(a := None)\<rparr> \<and> c' = c\<lparr>usage := usage c - charge e\<rparr>
     else h' = h\<lparr>cells := (cells h)(a \<mapsto> e\<lparr>refs := refs e - 1\<rparr>)\<rparr> \<and> c' = c)"
proof (cases p)
  case nullptr
  with assms show ?thesis by simp
next
  case (Addr a)
  with assms obtain e where e: "cells h a = Some e"
    by (auto split: option.splits)
  with assms Addr have nz: "refs e \<noteq> 0"
    by (auto simp: word_gt_0 split: if_splits)
  with assms Addr e show ?thesis
    by (auto simp: delete.simps store.simps word_gt_0 split: if_splits)
qed

subsection \<open>The heap and the usage counter\<close>

lemma charge_at_upd_other: "p \<noteq> Addr a \<Longrightarrow> charge_at (h\<lparr>cells := (cells h)(a := x)\<rparr>) p = charge_at h p"
  by (cases p) (auto simp: charge_at_def)

lemma charge_at_upd_refs:
  "cells h a = Some e \<Longrightarrow> charge_at (h\<lparr>cells := (cells h)(a \<mapsto> e\<lparr>refs := r\<rparr>)\<rparr>) p = charge_at h p"
  by (cases p) (auto simp: charge_at_def)

lemma live_charge_upd_refs:
  "cells h a = Some e \<Longrightarrow> live_charge (h\<lparr>cells := (cells h)(a \<mapsto> e\<lparr>refs := r\<rparr>)\<rparr>) = live_charge h"
  by (simp add: live_charge_def charge_at_upd_refs)

lemma live_charge_free:
  assumes "cells h a = Some e" "a < next_addr h"
  shows "live_charge (h\<lparr>cells := (cells h)(a := None)\<rparr>) + unat (charge e) = live_charge h"
proof -
  have fin: "finite {..<next_addr h}" by simp
  have mem: "a \<in> {..<next_addr h}" using assms by simp
  have "live_charge h = charge_at h (Addr a) + (\<Sum>x\<in>{..<next_addr h} - {a}. charge_at h (Addr x))"
    unfolding live_charge_def by (rule sum.remove [OF fin mem])
  moreover have "live_charge (h\<lparr>cells := (cells h)(a := None)\<rparr>) =
      charge_at (h\<lparr>cells := (cells h)(a := None)\<rparr>) (Addr a) +
      (\<Sum>x\<in>{..<next_addr h} - {a}. charge_at (h\<lparr>cells := (cells h)(a := None)\<rparr>) (Addr x))"
    unfolding live_charge_def using sum.remove [OF fin mem] by simp
  moreover have "(\<Sum>x\<in>{..<next_addr h} - {a}. charge_at (h\<lparr>cells := (cells h)(a := None)\<rparr>) (Addr x))
      = (\<Sum>x\<in>{..<next_addr h} - {a}. charge_at h (Addr x))"
    by (rule sum.cong) (auto simp: charge_at_upd_other)
  moreover have "charge_at h (Addr a) = unat (charge e)"
    using assms by (simp add: charge_at_def)
  moreover have "charge_at (h\<lparr>cells := (cells h)(a := None)\<rparr>) (Addr a) = 0"
    by (simp add: charge_at_def)
  ultimately show ?thesis by simp
qed

lemma heap_ok_live: "heap_ok h \<Longrightarrow> cells h a = Some e \<Longrightarrow> a < next_addr h"
  unfolding heap_ok_def by (metis not_le option.distinct(1))

lemma Release_acct:
  assumes "Release p (h, c) = Inr (h', c')" "acct (h, c)"
  shows "acct (h', c')"
proof -
  from Release_Inr [OF assms(1)] obtain a e where ae: "p = Addr a" "cells h a = Some e" "refs e \<noteq> 0"
    and eff: "if refs e = 1
     then h' = h\<lparr>cells := (cells h)(a := None)\<rparr> \<and> c' = c\<lparr>usage := usage c - charge e\<rparr>
     else h' = h\<lparr>cells := (cells h)(a \<mapsto> e\<lparr>refs := refs e - 1\<rparr>)\<rparr> \<and> c' = c"
    by blast
  from assms(2) have ok: "heap_ok h" and us: "usage c = of_nat (live_charge h)"
    by (simp_all add: acct_def)
  have lt: "a < next_addr h" using ok ae(2) by (rule heap_ok_live)
  show ?thesis
  proof (cases "refs e = 1")
    case True
    from live_charge_free [OF ae(2) lt]
    have "of_nat (live_charge h) = (of_nat (live_charge (h\<lparr>cells := (cells h)(a := None)\<rparr>)) :: size_t) + charge e"
      by (metis of_nat_add of_nat_unat ucast_id)
    with eff True ok us show ?thesis
      by (auto simp: acct_def heap_ok_def)
  next
    case False
    with eff ok us ae show ?thesis
      by (auto simp: acct_def heap_ok_def live_charge_upd_refs)
  qed
qed

lemma Release_frame:
  assumes "Release p (h, c) = Inr (h', c')"
  shows "lru c' = lru c" "table c' = table c" "capacity c' = capacity c" "next_node c' = next_node c"
    "next_addr h' = next_addr h"
  using Release_Inr [OF assms] by (auto split: if_splits)

subsection \<open>The loops of Insert and Prune\<close>

lemma evict_Inr:
  assumes "evict (h, c) = Inr s'"
  shows "(\<not> (capacity c < usage c \<and> lru c \<noteq> []) \<and> s' = (h, c)) \<or>
    (capacity c < usage c \<and> lru c \<noteq> [] \<and>
      (\<exists>e h1 c1. deref h (snd (last (lru c))) = Some e \<and>
         Release (snd (last (lru c)))
           (h, c\<lparr>table := (table c)(key e := None), lru := butlast (lru c)\<rparr>) = Inr (h1, c1) \<and>
         evict (h1, c1) = Inr s'))"
  using assms
  by (subst (asm) evict.simps) (auto simp: Let_def split: if_splits option.splits sum.splits)

lemma evict_preserves:
  assumes ev: "evict s = Inr s'" and P: "P s"
    and step: "\<And>h c e h1 c1. P (h, c) \<Longrightarrow> capacity c < usage c \<Longrightarrow> lru c \<noteq> [] \<Longrightarrow>
       deref h (snd (last (lru c))) = Some e \<Longrightarrow>
       Release (snd (last (lru c)))
         (h, c\<lparr>table := (table c)(key e := None), lru := butlast (lru c)\<rparr>) = Inr (h1, c1) \<Longrightarrow>
       P (h1, c1)"
  shows "P s'"
  using ev P
proof (induction s rule: evict.induct)
  case (1 h c)
  from evict_Inr [OF "1.prems"(1)] show ?case
  proof (elim disjE conjE exE)
    assume "s' = (h, c)"
    with "1.prems"(2) show ?thesis by simp
  next
    fix e h1 c1
    assume a: "capacity c < usage c" "lru c \<noteq> []"
      "deref h (snd (last (lru c))) = Some e"
      "Release (snd (last (lru c)))
         (h, c\<lparr>table := (table c)(key e := None), lru := butlast (lru c)\<rparr>) = Inr (h1, c1)"
      "evict (h1, c1) = Inr s'"
    have "P (h1, c1)"
      using step [OF "1.prems"(2) a(1-4)] .
    with "1.IH" a show ?thesis
      by auto
  qed
qed

lemma evict_exit:
  "evict s = Inr s' \<Longrightarrow> usage (snd s') \<le> capacity (snd s') \<or> lru (snd s') = []"
proof (induction s rule: evict.induct)
  case (1 h c)
  from evict_Inr [OF "1.prems"(1)] show ?case
  proof (elim disjE conjE exE)
    assume "\<not> (capacity c < usage c \<and> lru c \<noteq> [])" "s' = (h, c)"
    then show ?thesis by auto
  next
    fix e h1 c1
    assume a: "capacity c < usage c" "lru c \<noteq> []"
      "deref h (snd (last (lru c))) = Some e"
      "Release (snd (last (lru c)))
         (h, c\<lparr>table := (table c)(key e := None), lru := butlast (lru c)\<rparr>) = Inr (h1, c1)"
      "evict (h1, c1) = Inr s'"
    with "1.IH" show ?thesis
      by auto
  qed
qed

lemma prune_loop_preserves:
  assumes pl: "prune_loop ps s = Inr s'" and P: "P s"
    and step: "\<And>h c q e h1 c1. P (h, c) \<Longrightarrow> deref h q = Some e \<Longrightarrow> refs e = 1 \<Longrightarrow>
       Release q (h, c\<lparr>table := (table c)(key e := None)\<rparr>) = Inr (h1, c1) \<Longrightarrow> P (h1, c1)"
  shows "P s'"
  using pl P
proof (induction ps s rule: prune_loop.induct)
  case (1 s)
  then show ?case by simp
next
  case (2 it rest h c)
  from "2.prems"(1) obtain e where e: "deref h it = Some e"
    by (auto split: option.splits)
  show ?case
  proof (cases "refs e = 1")
    case True
    with "2.prems"(1) e obtain s1 where
      r: "Release it (h, c\<lparr>table := (table c)(key e := None)\<rparr>) = Inr s1"
      and rest: "prune_loop rest s1 = Inr s'"
      by (auto split: sum.splits)
    obtain h1 c1 where s1: "s1 = (h1, c1)" by (cases s1)
    have "P s1" using step [OF "2.prems"(2) e True] r s1 by simp
    with "2.IH"(1) [OF e True r rest] show ?thesis .
  next
    case False
    with "2.prems" e "2.IH"(2) show ?thesis by auto
  qed
qed

subsection \<open>Insert, Lookup and Erase\<close>

lemma Insert_Inr:
  assumes "Insert k v ch (h, c) = Inr (p, s')"
  shows "table c k = None \<and> p = Addr (next_addr h) \<and>
    evict (h\<lparr>cells := (cells h)(next_addr h \<mapsto> \<lparr>key = k, val = v, refs = 2, charge = ch\<rparr>),
             next_addr := Suc (next_addr h)\<rparr>,
           c\<lparr>lru := (next_node c, Addr (next_addr h)) # lru c, next_node := Suc (next_node c),
             table := (table c)(k \<mapsto> next_node c), usage := usage c + ch\<rparr>) = Inr s'"
proof (cases "table c k")
  case None
  with assms show ?thesis
    by (auto simp: Insert_def new_handle_def insert_front_def split: sum.splits if_splits)
next
  case (Some it)
  then have "Insert k v ch (h, c) = Inl InvalidIterator"
    by (intro Insert_registered) simp
  with assms show ?thesis by simp
qed

lemma Lookup_Inr:
  assumes "Lookup k (h, c) = Inr (p, h', c')"
  shows "(table c k = None \<and> p = nullptr \<and> h' = h \<and> c' = c) \<or>
    (\<exists>it a e. table c k = Some it \<and> map_of (lru c) it = Some (Addr a) \<and> p = Addr a \<and>
       cells h a = Some e \<and> h' = h\<lparr>cells := (cells h)(a \<mapsto> e\<lparr>refs := refs e + 1\<rparr>)\<rparr> \<and>
       (if at_begin (lru c) it then c' = c
        else c' = c\<lparr>lru := (next_node c, Addr a) # filter (\<lambda>n. fst n \<noteq> it) (lru c),
                   next_node := Suc (next_node c)\<rparr>))"
proof (cases "table c k")
  case None
  with assms show ?thesis by (simp add: Lookup_def)
next
  case (Some it)
  with assms obtain q where q: "map_of (lru c) it = Some q"
    by (auto simp: Lookup_def list_deref_def split: option.splits)
  with assms Some obtain e where e: "deref h q = Some e"
    by (auto simp: Lookup_def list_deref_def split: option.splits sum.splits if_splits)
  then obtain a where a: "q = Addr a" by (cases q) auto
  from q have "it \<in> fst ` set (lru c)"
    by (metis domI dom_map_of_conv_image_fst)
  with assms Some q e a show ?thesis
    by (auto simp: Lookup_def list_deref_def list_erase_def insert_front_def store.simps
        split: if_splits)
qed

lemma Erase_Inr:
  assumes "Erase k (h, c) = Inr (h', c')"
  shows "(table c k = None \<and> h' = h \<and> c' = c) \<or>
    (\<exists>it p h1 c1. table c k = Some it \<and> map_of (lru c) it = Some p \<and>
       Release p (h, c) = Inr (h1, c1) \<and> h' = h1 \<and>
       c' = c1\<lparr>lru := filter (\<lambda>n. fst n \<noteq> it) (lru c), table := (table c)(k := None)\<rparr>)"
proof (cases "table c k")
  case None
  with assms show ?thesis by (simp add: Erase_def)
next
  case (Some it)
  with assms obtain q where q: "map_of (lru c) it = Some q"
    by (auto simp: Erase_def list_deref_def split: option.splits)
  with assms Some obtain h1 c1 where r: "Release q (h, c) = Inr (h1, c1)"
    by (auto simp: Erase_def list_deref_def simp del: Release.simps split: sum.splits)
  note fr = Release_frame [OF r]
  from q have "it \<in> fst ` set (lru c)"
    by (metis domI dom_map_of_conv_image_fst)
  with assms Some q r fr show ?thesis
    by (auto simp: Erase_def list_deref_def list_erase_def simp del: Release.simps)
qed

subsection \<open>The charges of the live handles\<close>

lemma Release_live_le:
  assumes "Release p (h, c) = Inr (h', c')" "heap_ok h"
  shows "live_charge h' \<le> live_charge h"
proof -
  from Release_Inr [OF assms(1)] obtain a e where ae: "p = Addr a" "cells h a = Some e"
    and eff: "if refs e = 1
     then h' = h\<lparr>cells := (cells h)(a := None)\<rparr> \<and> c' = c\<lparr>usage := usage c - charge e\<rparr>
     else h' = h\<lparr>cells := (cells h)(a \<mapsto> e\<lparr>refs := refs e - 1\<rparr>)\<rparr> \<and> c' = c"
    by blast
  have lt: "a < next_addr h" using assms(2) ae(2) by (rule heap_ok_live)
  show ?thesis
  proof (cases "refs e = 1")
    case True
    with eff live_charge_free [OF ae(2) lt] show ?thesis by auto
  next
    case False
    with eff ae show ?thesis by (auto simp: live_charge_upd_refs)
  qed
qed

lemma acct_cache_upd [simp]:
  "acct (h, c\<lparr>table := t\<rparr>) = acct (h, c)" "acct (h, c\<lparr>lru := l\<rparr>) = acct (h, c)"
  "acct (h, c\<lparr>next_node := n\<rparr>) = acct (h, c)"
  by (simp_all add: acct_def)

lemma budget_cache_upd [simp]:
  "budget B (h, c\<lparr>table := t\<rparr>) = budget B (h, c)" "budget B (h, c\<lparr>lru := l\<rparr>) = budget B (h, c)"
  "budget B (h, c\<lparr>next_node := n\<rparr>) = budget B (h, c)"
  by (simp_all add: budget_def)

lemma Release_budget:
  assumes "Release p (h, c) = Inr (h', c')" "budget B (h, c)"
  shows "budget B (h', c')"
  using Release_acct [OF assms(1)] Release_live_le [OF assms(1)] assms(2)
  by (fastforce simp: budget_def acct_def)

lemma evict_budget:
  assumes "evict s = Inr s'" "budget B s"
  shows "budget B s'"
  using assms
proof (rule evict_preserves)
  fix h c e h1 c1
  assume "budget B (h, c)" and "Release (snd (last (lru c)))
         (h, c\<lparr>table := (table c)(key e := None), lru := butlast (lru c)\<rparr>) = Inr (h1, c1)"
  then show "budget B (h1, c1)"
    using Release_budget by fastforce
qed

lemma prune_loop_budget:
  assumes "prune_loop ps s = Inr s'" "budget B s"
  shows "budget B s'"
  using assms
proof (rule prune_loop_preserves)
  fix h c q e h1 c1
  assume "budget B (h, c)"
    and "Release q (h, c\<lparr>table := (table c)(key e := None)\<rparr>) = Inr (h1, c1)"
  then show "budget B (h1, c1)"
    using Release_budget by fastforce
qed

lemma evict_frame:
  assumes "evict (h, c) = Inr (h', c')"
  shows "capacity c' = capacity c" "next_node c' = next_node c" "next_addr h' = next_addr h"
proof -
  have "same_frame c h (h', c')"
    using assms
  proof (rule evict_preserves)
    show "same_frame c h (h, c)" by (simp add: same_frame_def)
  next
    fix h0 c0 e h1 c1
    assume "same_frame c h (h0, c0)" and "Release (snd (last (lru c0)))
         (h0, c0\<lparr>table := (table c0)(key e := None), lru := butlast (lru c0)\<rparr>) = Inr (h1, c1)"
    then show "same_frame c h (h1, c1)"
      using Release_frame by (fastforce simp: same_frame_def)
  qed
  then show "capacity c' = capacity c" "next_node c' = next_node c" "next_addr h' = next_addr h"
    by (simp_all add: same_frame_def)
qed

lemma evict_lru_take:
  assumes "evict (h, c) = Inr (h', c')"
  shows "\<exists>n. lru c' = take n (lru c)"
proof -
  have "\<exists>n. lru (snd (h', c')) = take n (lru c)"
    using assms
  proof (rule evict_preserves [where P = "\<lambda>s. \<exists>n. lru (snd s) = take n (lru c)"])
    show "\<exists>n. lru (snd (h, c)) = take n (lru c)"
      by (rule exI [of _ "length (lru c)"]) simp
  next
    fix h0 c0 e h1 c1
    assume "\<exists>n. lru (snd (h0, c0)) = take n (lru c)" and "Release (snd (last (lru c0)))
         (h0, c0\<lparr>table := (table c0)(key e := None), lru := butlast (lru c0)\<rparr>) = Inr (h1, c1)"
    then obtain n where "lru c0 = take n (lru c)" and "lru c1 = butlast (lru c0)"
      using Release_frame(1) by fastforce
    then have "lru c1 = take (length (lru c0) - 1) (take n (lru c))"
      by (simp add: butlast_conv_take)
    then show "\<exists>m. lru (snd (h1, c1)) = take m (lru c)"
      by (auto simp: take_take simp del: length_take)
  qed
  then show ?thesis by simp
qed

lemma prune_loop_frame:
  assumes "prune_loop ps (h, c) = Inr (h', c')"
  shows "lru c' = lru c" "capacity c' = capacity c" "next_node c' = next_node c"
    "next_addr h' = next_addr h"
proof -
  have "same_frame c h (h', c') \<and> lru (snd (h', c')) = lru c"
    using assms
  proof (rule prune_loop_preserves [where P = "\<lambda>s. same_frame c h s \<and> lru (snd s) = lru c"])
    show "same_frame c h (h, c) \<and> lru (snd (h, c)) = lru c" by (simp add: same_frame_def)
  next
    fix h0 c0 q e h1 c1
    assume "same_frame c h (h0, c0) \<and> lru (snd (h0, c0)) = lru c"
      and "Release q (h0, c0\<lparr>table := (table c0)(key e := None)\<rparr>) = Inr (h1, c1)"
    then show "same_frame c h (h1, c1) \<and> lru (snd (h1, c1)) = lru c"
      using Release_frame by (fastforce simp: same_frame_def)
  qed
  then show "lru c' = lru c" "capacity c' = capacity c" "next_node c' = next_node c"
    "next_addr h' = next_addr h"
    by (simp_all add: same_frame_def)
qed

subsection \<open>The elements of the list\<close>

lemma lru_ok_take:
  "lru_ok (h, c) \<Longrightarrow> lru c' = take n (lru c) \<Longrightarrow> next_addr h' = next_addr h \<Longrightarrow> lru_ok (h', c')"
  by (auto simp: lru_ok_def take_map [symmetric] dest!: in_set_takeD)

lemma lru_ok_filter:
  "lru_ok (h, c) \<Longrightarrow> lru c' = filter P (lru c) \<Longrightarrow> next_addr h' = next_addr h \<Longrightarrow> lru_ok (h', c')"
  by (auto simp: lru_ok_def distinct_map_filter)

lemma lru_ok_same:
  "lru_ok (h, c) \<Longrightarrow> lru c' = lru c \<Longrightarrow> next_addr h' = next_addr h \<Longrightarrow> lru_ok (h', c')"
  by (auto simp: lru_ok_def)

lemma distinct_snd_filter_fst:
  assumes "distinct (map snd l)" "map_of l it = Some p"
  shows "p \<notin> snd ` set (filter (\<lambda>n. fst n \<noteq> it) l)"
proof
  assume "p \<in> snd ` set (filter (\<lambda>n. fst n \<noteq> it) l)"
  then obtain n where n: "(n, p) \<in> set l" "n \<noteq> it" by auto
  from assms(2) have "(it, p) \<in> set l" by (rule map_of_SomeD)
  with n assms(1) show False
    by (metis eq_key_imp_eq_value distinct_map fst_conv inj_onD prod.inject snd_conv)
qed

lemma lru_ok_move:
  assumes "lru_ok (h, c)" "map_of (lru c) it = Some p"
    "lru c' = (n, p) # filter (\<lambda>n. fst n \<noteq> it) (lru c)" "next_addr h' = next_addr h"
  shows "lru_ok (h', c')"
proof -
  from assms(1) have d: "distinct (map snd (lru c))" by (simp add: lru_ok_def)
  have "p \<notin> snd ` set (filter (\<lambda>n. fst n \<noteq> it) (lru c))"
    using d assms(2) by (rule distinct_snd_filter_fst)
  moreover have "(it, p) \<in> set (lru c)" using assms(2) by (rule map_of_SomeD)
  ultimately show ?thesis
    using assms(1,3,4) by (force simp: lru_ok_def distinct_map_filter)
qed

lemma lru_ok_Release:
  "Release p (h, c) = Inr (h', c') \<Longrightarrow> lru_ok (h, c) \<Longrightarrow> lru_ok (h', c')"
  using Release_frame [of p h c h' c'] by (auto intro: lru_ok_same)

lemma void_step [simp]:
  "map_sum id (Pair nullptr) x = Inr (r, s') \<longleftrightarrow> x = Inr s' \<and> r = nullptr"
  by (cases x) auto

lemma lru_ok_step:
  assumes "step x (h, c) = Inr (r, h', c')" "lru_ok (h, c)"
  shows "lru_ok (h', c')"
proof (cases x)
  case (OpInsert k v ch)
  with assms have "Insert k v ch (h, c) = Inr (r, h', c')" by simp
  from Insert_Inr [OF this]
  have ev: "evict (h\<lparr>cells := (cells h)(next_addr h \<mapsto> \<lparr>key = k, val = v, refs = 2, charge = ch\<rparr>),
             next_addr := Suc (next_addr h)\<rparr>,
           c\<lparr>lru := (next_node c, Addr (next_addr h)) # lru c, next_node := Suc (next_node c),
             table := (table c)(k \<mapsto> next_node c), usage := usage c + ch\<rparr>) = Inr (h', c')"
    (is "evict (?h1, ?c1) = _")
    by simp
  from assms(2) have "lru_ok (?h1, ?c1)"
    by (fastforce simp: lru_ok_def)
  moreover from evict_lru_take [OF ev] obtain n where "lru c' = take n (lru ?c1)" ..
  moreover have "next_addr h' = next_addr ?h1" using evict_frame(3) [OF ev] .
  ultimately show ?thesis by (rule lru_ok_take)
next
  case (OpLookup k)
  with assms have "Lookup k (h, c) = Inr (r, h', c')" by simp
  from Lookup_Inr [OF this] assms(2) show ?thesis
  proof (elim disjE conjE exE)
    fix it a e
    assume a: "map_of (lru c) it = Some (Addr a)"
      "h' = h\<lparr>cells := (cells h)(a \<mapsto> e\<lparr>refs := refs e + 1\<rparr>)\<rparr>"
      "if at_begin (lru c) it then c' = c
        else c' = c\<lparr>lru := (next_node c, Addr a) # filter (\<lambda>n. fst n \<noteq> it) (lru c),
                   next_node := Suc (next_node c)\<rparr>"
    show ?thesis
    proof (cases "at_begin (lru c) it")
      case True
      with a assms(2) show ?thesis by (auto intro: lru_ok_same)
    next
      case False
      with a have "lru c' = (next_node c, Addr a) # filter (\<lambda>n. fst n \<noteq> it) (lru c)"
        "next_addr h' = next_addr h" by simp_all
      with assms(2) a(1) show ?thesis by (rule lru_ok_move)
    qed
  qed simp
next
  case (OpRelease p)
  with assms show ?thesis
    by (auto simp del: Release.simps intro: lru_ok_Release)
next
  case (OpErase k)
  with assms have "Erase k (h, c) = Inr (h', c')" by auto
  from Erase_Inr [OF this] show ?thesis
  proof (elim disjE conjE exE)
    fix it p h1 c1
    assume a: "Release p (h, c) = Inr (h1, c1)" "h' = h1"
      "c' = c1\<lparr>lru := filter (\<lambda>n. fst n \<noteq> it) (lru c), table := (table c)(k := None)\<rparr>"
    from a have "lru c' = filter (\<lambda>n. fst n \<noteq> it) (lru c)" by simp
    moreover have "next_addr h' = next_addr h" using Release_frame(5) [OF a(1)] a(2) by simp
    ultimately show ?thesis using assms(2) by (auto intro: lru_ok_filter)
  qed (use assms(2) in simp)
next
  case OpPrune
  with assms have "prune_loop (map snd (lru c)) (h, c) = Inr (h', c')"
    by (auto simp: Prune_def)
  from prune_loop_frame [OF this] assms(2) show ?thesis by (auto intro: lru_ok_same)
qed

subsection \<open>The capacity invariant\<close>

lemma live_charge_new:
  assumes "heap_ok h"
  shows "live_charge (h\<lparr>cells := (cells h)(next_addr h \<mapsto> e), next_addr := Suc (next_addr h)\<rparr>)
    = live_charge h + unat (charge e)"
proof -
  let ?h1 = "h\<lparr>cells := (cells h)(next_addr h \<mapsto> e), next_addr := Suc (next_addr h)\<rparr>"
  have "(\<Sum>a<next_addr h. charge_at ?h1 (Addr a)) = (\<Sum>a<next_addr h. charge_at h (Addr a))"
    by (rule sum.cong) (auto simp: charge_at_def)
  moreover have "charge_at ?h1 (Addr (next_addr h)) = unat (charge e)"
    by (simp add: charge_at_def)
  ultimately show ?thesis
    by (simp add: live_charge_def)
qed

lemma heap_ok_new:
  "heap_ok h \<Longrightarrow> heap_ok (h\<lparr>cells := (cells h)(next_addr h \<mapsto> e), next_addr := Suc (next_addr h)\<rparr>)"
  by (auto simp: heap_ok_def)

lemma heap_ok_upd:
  "heap_ok h \<Longrightarrow> cells h a = Some e \<Longrightarrow> heap_ok (h\<lparr>cells := (cells h)(a := x)\<rparr>)"
  by (auto simp: heap_ok_def)

lemma budget_step:
  assumes "step x (h, c) = Inr (r, h', c')" "budget B (h, c)"
  shows "budget (B + op_charge x) (h', c')"
proof (cases x)
  case (OpInsert k v ch)
  with assms have "Insert k v ch (h, c) = Inr (r, h', c')" by simp
  from Insert_Inr [OF this]
  have ev: "evict (h\<lparr>cells := (cells h)(next_addr h \<mapsto> \<lparr>key = k, val = v, refs = 2, charge = ch\<rparr>),
             next_addr := Suc (next_addr h)\<rparr>,
           c\<lparr>lru := (next_node c, Addr (next_addr h)) # lru c, next_node := Suc (next_node c),
             table := (table c)(k \<mapsto> next_node c), usage := usage c + ch\<rparr>) = Inr (h', c')"
    (is "evict (?h1, ?c1) = _")
    by simp
  from assms(2) have ok: "heap_ok h" and us: "usage c = of_nat (live_charge h)"
    and le: "live_charge h \<le> B"
    by (simp_all add: budget_def acct_def)
  have "live_charge ?h1 = live_charge h + unat ch"
    using live_charge_new [OF ok] by simp
  moreover have "heap_ok ?h1" using ok by (rule heap_ok_new)
  ultimately have "budget (B + unat ch) (?h1, ?c1)"
    using us le by (simp add: budget_def acct_def)
  with ev OpInsert show ?thesis
    by (auto intro: evict_budget)
next
  case (OpLookup k)
  with assms have "Lookup k (h, c) = Inr (r, h', c')" by simp
  from Lookup_Inr [OF this] show ?thesis
  proof (elim disjE conjE exE)
    fix it a e
    assume a: "cells h a = Some e"
      "h' = h\<lparr>cells := (cells h)(a \<mapsto> e\<lparr>refs := refs e + 1\<rparr>)\<rparr>"
      "if at_begin (lru c) it then c' = c
        else c' = c\<lparr>lru := (next_node c, Addr a) # filter (\<lambda>n. fst n \<noteq> it) (lru c),
                   next_node := Suc (next_node c)\<rparr>"
    from a(3) have "usage c' = usage c" by (auto split: if_splits)
    moreover have "live_charge h' = live_charge h"
      using a(1,2) by (simp add: live_charge_upd_refs)
    moreover have "heap_ok h'"
      using assms(2) a(1,2) by (auto simp: budget_def acct_def intro: heap_ok_upd)
    ultimately show ?thesis
      using assms(2) OpLookup by (simp add: budget_def acct_def)
  qed (use assms(2) OpLookup in simp)
next
  case (OpRelease p)
  with assms show ?thesis
    by (auto simp del: Release.simps intro: Release_budget)
next
  case (OpErase k)
  with assms have "Erase k (h, c) = Inr (h', c')" by auto
  from Erase_Inr [OF this] show ?thesis
  proof (elim disjE conjE exE)
    fix it p h1 c1
    assume a: "Release p (h, c) = Inr (h1, c1)" "h' = h1"
      "c' = c1\<lparr>lru := filter (\<lambda>n. fst n \<noteq> it) (lru c), table := (table c)(k := None)\<rparr>"
    from Release_budget [OF a(1) assms(2)] a(2,3) OpErase show ?thesis
      by simp
  qed (use assms(2) OpErase in simp)
next
  case OpPrune
  with assms have "prune_loop (map snd (lru c)) (h, c) = Inr (h', c')"
    by (auto simp: Prune_def)
  from prune_loop_budget [OF this assms(2)] OpPrune show ?thesis by simp
qed

lemma Insert_evict:
  assumes "Insert k v ch (h, c) = Inr (p, h', c')"
  obtains h1 c1 where "evict (h1, c1) = Inr (h', c')" "capacity c1 = capacity c"
  using Insert_Inr [OF assms] by (elim conjE) (rule that, assumption, simp)

lemma step_capacity:
  assumes "step x (h, c) = Inr (r, h', c')"
  shows "capacity c' = capacity c"
proof (cases x)
  case (OpInsert k v ch)
  with assms have "Insert k v ch (h, c) = Inr (r, h', c')" by simp
  then obtain h1 c1 where "evict (h1, c1) = Inr (h', c')" "capacity c1 = capacity c"
    by (rule Insert_evict)
  then show ?thesis using evict_frame(1) by metis
next
  case (OpLookup k)
  with assms have "Lookup k (h, c) = Inr (r, h', c')" by simp
  from Lookup_Inr [OF this] show ?thesis by (auto split: if_splits)
next
  case (OpRelease p)
  with assms have "Release p (h, c) = Inr (h', c')" by (simp del: Release.simps)
  then show ?thesis by (rule Release_frame(3))
next
  case (OpErase k)
  with assms have "Erase k (h, c) = Inr (h', c')" by simp
  from Erase_Inr [OF this] show ?thesis
  proof (elim disjE conjE exE)
    fix it p h1 c1
    assume "Release p (h, c) = Inr (h1, c1)"
      "c' = c1\<lparr>lru := filter (\<lambda>n. fst n \<noteq> it) (lru c), table := (table c)(k := None)\<rparr>"
    then show ?thesis using Release_frame(3) [of p h c h1 c1] by simp
  qed simp
next
  case OpPrune
  with assms have "prune_loop (map snd (lru c)) (h, c) = Inr (h', c')"
    by (simp add: Prune_def)
  then show ?thesis by (rule prune_loop_frame(2))
qed

lemma step_lru_empty:
  assumes "step x (h, c) = Inr (r, h', c')" "lru c = []" "\<forall>k v ch. x \<noteq> OpInsert k v ch"
  shows "lru c' = []"
proof (cases x)
  case (OpInsert k v ch)
  with assms show ?thesis by simp
next
  case (OpLookup k)
  with assms have "Lookup k (h, c) = Inr (r, h', c')" by simp
  from Lookup_Inr [OF this] assms(2) show ?thesis by (auto split: if_splits)
next
  case (OpRelease p)
  with assms have "Release p (h, c) = Inr (h', c')" by (simp del: Release.simps)
  from Release_frame(1) [OF this] assms(2) show ?thesis by simp
next
  case (OpErase k)
  with assms have "Erase k (h, c) = Inr (h', c')" by simp
  from Erase_Inr [OF this] assms(2) show ?thesis by auto
next
  case OpPrune
  with assms have "prune_loop (map snd (lru c)) (h, c) = Inr (h', c')"
    by (simp add: Prune_def)
  from prune_loop_frame(1) [OF this] assms(2) show ?thesis by simp
qed

lemma budget_unat_usage:
  "budget B (h, c) \<Longrightarrow> B < 2 ^ 64 \<Longrightarrow> unat (usage c) = live_charge h"
  by (simp add: budget_def acct_def unat_of_nat)

lemma capacity_inv_step:
  assumes st: "step x (h, c) = Inr (r, h', c')" and inv: "capacity_inv B (h, c)"
    and B: "B + op_charge x < 2 ^ 64"
  shows "capacity_inv (B + op_charge x) (h', c')"
proof -
  from inv have bud: "budget B (h, c)" and ok: "lru_ok (h, c)"
    and cap: "live_charge h \<le> unat (capacity c) \<or> lru c = []"
    by (simp_all add: capacity_inv_def)
  have bud': "budget (B + op_charge x) (h', c')" using st bud by (rule budget_step)
  have ok': "lru_ok (h', c')" using st ok by (rule lru_ok_step)
  have us': "unat (usage c') = live_charge h'" using bud' B by (rule budget_unat_usage)
  have cap': "live_charge h' \<le> unat (capacity c') \<or> lru c' = []"
  proof (cases "\<exists>k v ch. x = OpInsert k v ch")
    case True
    then obtain k v ch where x: "x = OpInsert k v ch" by blast
    with st have "Insert k v ch (h, c) = Inr (r, h', c')" by simp
    then obtain h1 c1 where "evict (h1, c1) = Inr (h', c')"
      by (rule Insert_evict)
    from evict_exit [OF this] have "usage c' \<le> capacity c' \<or> lru c' = []"
      by simp
    then show ?thesis
    proof
      assume "usage c' \<le> capacity c'"
      then have "unat (usage c') \<le> unat (capacity c')"
        by (simp only: word_le_nat_alt)
      with us' show ?thesis by simp
    next
      assume "lru c' = []"
      then show ?thesis ..
    qed
  next
    case False
    then have z: "op_charge x = 0" by (cases x) auto
    from bud have "budget (live_charge h) (h, c)"
      by (simp add: budget_def)
    with st have "budget (live_charge h + op_charge x) (h', c')"
      by (rule budget_step)
    with z have le: "live_charge h' \<le> live_charge h" by (simp add: budget_def)
    have same: "capacity c' = capacity c" using st by (rule step_capacity)
    from cap show ?thesis
    proof
      assume "live_charge h \<le> unat (capacity c)"
      with le same show ?thesis by simp
    next
      assume "lru c = []"
      moreover from False have "\<forall>k v ch. x \<noteq> OpInsert k v ch" by blast
      ultimately have "lru c' = []" using st step_lru_empty by blast
      then show ?thesis ..
    qed
  qed
  from bud' ok' cap' show ?thesis by (simp add: capacity_inv_def)
qed

lemma run_capacity_inv:
  "run xs s = Inr s' \<Longrightarrow> capacity_inv B s \<Longrightarrow> B + sum_list (map op_charge xs) < 2 ^ 64 \<Longrightarrow>
    capacity_inv (B + sum_list (map op_charge xs)) s'"
proof (induction xs arbitrary: s B)
  case Nil
  then show ?case by simp
next
  case (Cons x xs)
  from Cons.prems(1) obtain r s1 where st: "step x s = Inr (r, s1)" and rest: "run xs s1 = Inr s'"
    by (auto split: sum.splits)
  obtain h c where s: "s = (h, c)" by (cases s)
  obtain h1 c1 where s1: "s1 = (h1, c1)" by (cases s1)
  from Cons.prems(3) have B: "B + op_charge x < 2 ^ 64" by simp
  have "capacity_inv (B + op_charge x) s1"
    using capacity_inv_step [of x h c r h1 c1 B] st Cons.prems(2) B s s1 by simp
  from Cons.IH [OF rest this] Cons.prems(3) show ?case
    by (simp add: add.assoc)
qed

lemma registered_le_live:
  assumes "lru_ok (h, c)"
  shows "registered_charge (h, c) \<le> live_charge h"
proof -
  let ?ps = "map snd (lru c)"
  from assms have d: "distinct ?ps" and sub: "set ?ps \<subseteq> Addr ` {..<next_addr h}"
    by (auto simp: lru_ok_def)
  have "sum_list (map (charge_at h) ?ps) = sum (charge_at h) (set ?ps)"
    using d by (rule sum_list_distinct_conv_sum_set)
  then have "registered_charge (h, c) = sum (charge_at h) (set ?ps)"
    by (simp add: registered_charge_def)
  also have "\<dots> \<le> sum (charge_at h) (Addr ` {..<next_addr h})"
    using sub by (intro sum_mono2) auto
  also have "\<dots> = live_charge h"
    unfolding live_charge_def by (subst sum.reindex) (auto simp: inj_on_def)
  finally show ?thesis .
qed

lemma capacity_inv_init: "capacity_inv 0 (init n)"
  by (simp add: capacity_inv_def budget_def acct_def heap_ok_def lru_ok_def live_charge_def init_def
      empty_heap_def LRUCache_new_def set_capacity_def)

subsection \<open>The order of the list\<close>

lemma sorted_wrt_touch_front:
  assumes "sorted_wrt (\<lambda>p q. T q < T p) ps" "\<forall>q\<in>set ps. T q < t" "r \<notin> set ps"
  shows "sorted_wrt (\<lambda>p q. (T(r := t)) q < (T(r := t)) p) (r # ps)"
proof -
  have "sorted_wrt (\<lambda>p q. (T(r := t)) q < (T(r := t)) p) ps"
    using assms(1,3) by (auto elim!: sorted_wrt_mono_rel [rotated])
  with assms(2,3) show ?thesis by auto
qed

lemma by_recency_front:
  assumes "by_recency t T (h, c)" "r \<notin> snd ` set l" "set l \<subseteq> set (lru c)"
    "sorted_wrt (\<lambda>p q. T q < T p) (map snd l)" "distinct (map snd l)"
    "lru c' = (n, r) # l" "next_addr h' = next_addr h \<or> next_addr h' = Suc (next_addr h)"
    "\<exists>a<next_addr h'. r = Addr a"
  shows "by_recency (Suc t) (T(r := t)) (h', c')"
proof -
  from assms(1,3) have lt: "\<forall>q\<in>set (map snd l). T q < t"
    by (auto simp: by_recency_def)
  from assms(2) have "r \<notin> set (map snd l)" by simp
  with assms(4) lt have "sorted_wrt (\<lambda>p q. (T(r := t)) q < (T(r := t)) p) (r # map snd l)"
    by (intro sorted_wrt_touch_front)
  moreover have "\<forall>p\<in>snd ` set l. \<exists>a<next_addr h'. p = Addr a"
    using assms(1,3,7) by (fastforce simp: by_recency_def lru_ok_def less_Suc_eq)
  moreover have "\<forall>p\<in>snd ` set l. (T(r := t)) p < Suc t"
    using lt by (auto simp: less_Suc_eq)
  ultimately show ?thesis
    using assms(2,5,6,8) by (auto simp: by_recency_def lru_ok_def)
qed

lemma by_recency_sub:
  assumes "by_recency t T (h, c)" "lru c' = filter P (lru c) \<or> lru c' = take n (lru c)"
    "next_addr h' = next_addr h" "t \<le> t'"
  shows "by_recency t' T (h', c')"
proof -
  from assms(2) have sub: "set (lru c') \<subseteq> set (lru c)"
    by (auto dest: in_set_takeD)
  from assms(1) have s: "sorted_wrt (\<lambda>p q. T q < T p) (map snd (lru c))"
    by (simp add: by_recency_def)
  from assms(2) have "sorted_wrt (\<lambda>p q. T q < T p) (map snd (lru c'))"
  proof
    assume "lru c' = filter P (lru c)"
    then show ?thesis using s by (simp add: sorted_wrt_map sorted_wrt_filter)
  next
    assume "lru c' = take n (lru c)"
    then show ?thesis using s by (simp add: sorted_wrt_map sorted_wrt_take)
  qed
  moreover have "lru_ok (h', c')"
    using assms by (auto simp: by_recency_def intro: lru_ok_filter lru_ok_take)
  moreover have "\<forall>p\<in>snd ` set (lru c'). T p < t'"
    using assms(1,4) sub by (fastforce simp: by_recency_def)
  ultimately show ?thesis by (simp add: by_recency_def)
qed

lemma at_begin_map_of:
  assumes "at_begin l it" "map_of l it = Some p"
  obtains rest where "l = (it, p) # rest"
  using assms by (cases l) (auto simp: at_begin_def)

lemma by_recency_same:
  assumes "by_recency t T (h, c)" "lru c' = lru c" "next_addr h' = next_addr h"
  shows "by_recency (Suc t) T (h', c')"
proof -
  from assms(2) have "lru c' = filter (\<lambda>_. True) (lru c) \<or> lru c' = take 0 (lru c)"
    by simp
  with assms(1) show ?thesis using assms(3) by (rule by_recency_sub) simp
qed

lemma Insert_lru_take:
  assumes "Insert k v ch (h, c) = Inr (r, h', c')"
  shows "\<exists>n. map snd (lru c') = take n (r # map snd (lru c))"
proof -
  let ?h1 = "h\<lparr>cells := (cells h)(next_addr h \<mapsto> \<lparr>key = k, val = v, refs = 2, charge = ch\<rparr>),
             next_addr := Suc (next_addr h)\<rparr>"
  let ?c1 = "c\<lparr>lru := (next_node c, Addr (next_addr h)) # lru c, next_node := Suc (next_node c),
             table := (table c)(k \<mapsto> next_node c), usage := usage c + ch\<rparr>"
  from Insert_Inr [OF assms] have r: "r = Addr (next_addr h)"
    and ev: "evict (?h1, ?c1) = Inr (h', c')"
    by simp_all
  from evict_lru_take [OF ev] obtain n where "lru c' = take n (lru ?c1)" ..
  then have "map snd (lru c') = take n (map snd (lru ?c1))"
    by (simp only: take_map)
  also have "map snd (lru ?c1) = r # map snd (lru c)"
    using r by simp
  finally show ?thesis ..
qed

lemma by_recency_Insert_front:
  assumes "Insert k v ch (h, c) = Inr (r, h', c')" "by_recency t T (h, c)"
  shows "sorted_wrt (\<lambda>p q. (T(r := t)) q < (T(r := t)) p) (r # map snd (lru c))"
proof -
  from Insert_Inr [OF assms(1)] have r: "r = Addr (next_addr h)"
    by simp
  from assms(2) have ok: "lru_ok (h, c)"
    and srt: "sorted_wrt (\<lambda>p q. T q < T p) (map snd (lru c))"
    and lt: "\<forall>q\<in>set (map snd (lru c)). T q < t"
    by (simp_all add: by_recency_def)
  from ok have "\<forall>p\<in>set (map snd (lru c)). \<exists>a<next_addr h. p = Addr a"
    by (simp add: lru_ok_def)
  then have fresh: "r \<notin> set (map snd (lru c))"
    unfolding r by blast
  from srt lt fresh show ?thesis
    by (rule sorted_wrt_touch_front)
qed

lemma by_recency_Insert:
  assumes "Insert k v ch (h, c) = Inr (r, h', c')" "by_recency t T (h, c)"
  shows "by_recency (Suc t) (T(r := t)) (h', c')"
proof -
  from Insert_Inr [OF assms(1)] have r: "r = Addr (next_addr h)"
    by simp
  from Insert_lru_take [OF assms(1)] obtain n where
    n: "map snd (lru c') = take n (r # map snd (lru c))" ..
  have srt: "sorted_wrt (\<lambda>p q. (T(r := t)) q < (T(r := t)) p) (r # map snd (lru c))"
    using assms by (rule by_recency_Insert_front)
  have step: "lru_ok (h', c')"
    using lru_ok_step [of "OpInsert k v ch" h c r h' c'] assms by (simp add: by_recency_def)
  have "sorted_wrt (\<lambda>p q. (T(r := t)) q < (T(r := t)) p) (map snd (lru c'))"
    unfolding n using srt by (rule sorted_wrt_take)
  moreover have "\<forall>p\<in>set (map snd (lru c')). (T(r := t)) p < Suc t"
  proof
    fix p assume "p \<in> set (map snd (lru c'))"
    then have "p \<in> set (r # map snd (lru c))"
      unfolding n by (rule in_set_takeD)
    moreover from assms(2) have "\<forall>q\<in>set (map snd (lru c)). T q < t"
      by (simp add: by_recency_def)
    ultimately show "(T(r := t)) p < Suc t"
      by (auto simp: less_Suc_eq)
  qed
  ultimately show ?thesis
    using step by (simp add: by_recency_def)
qed

lemma by_recency_Lookup:
  fixes h :: "('k, 'v) heap"
  assumes "Lookup k (h, c) = Inr (r, h', c')" "by_recency t T (h, c)"
  shows "by_recency (Suc t) (touch (OpLookup k :: ('k, 'v) op) r t T) (h', c')"
  using Lookup_Inr [OF assms(1)]
proof (elim disjE conjE exE)
  assume "r = nullptr" "h' = h" "c' = c"
  with assms(2) show ?thesis
    by (auto simp: touch_def intro: by_recency_same)
next
  fix it a e
  assume a: "map_of (lru c) it = Some (Addr a)" "r = Addr a"
    "h' = h\<lparr>cells := (cells h)(a \<mapsto> e\<lparr>refs := refs e + 1\<rparr>)\<rparr>"
    "if at_begin (lru c) it then c' = c
        else c' = c\<lparr>lru := (next_node c, Addr a) # filter (\<lambda>n. fst n \<noteq> it) (lru c),
                   next_node := Suc (next_node c)\<rparr>"
  from assms(2) have ok: "lru_ok (h, c)" and srt: "sorted_wrt (\<lambda>p q. T q < T p) (map snd (lru c))"
    by (simp_all add: by_recency_def)
  from ok have d: "distinct (map snd (lru c))" by (simp add: lru_ok_def)
  have mem: "(it, r) \<in> set (lru c)" using a(1,2) by (auto dest: map_of_SomeD)
  with ok have below: "\<exists>b<next_addr h'. r = Addr b"
    using a(3) by (force simp: lru_ok_def)
  have na: "next_addr h' = next_addr h \<or> next_addr h' = Suc (next_addr h)" using a(3) by simp
  have tch: "touch (OpLookup k :: ('k, 'v) op) r t T = T(r := t)"
    using a(2) by (simp add: touch_def)
  show ?thesis
  proof (cases "at_begin (lru c) it")
    case True
    with a(1,2) obtain rest where l: "lru c = (it, r) # rest"
      by (auto elim: at_begin_map_of)
    from True a(4) have c': "lru c' = (it, r) # rest" using l by simp
    have "by_recency (Suc t) (T(r := t)) (h', c')"
      using assms(2) _ _ _ _ c' na below
    proof (rule by_recency_front)
      show "r \<notin> snd ` set rest" using d l by auto
      show "set rest \<subseteq> set (lru c)" using l by auto
      show "sorted_wrt (\<lambda>p q. T q < T p) (map snd rest)" using srt l by simp
      show "distinct (map snd rest)" using d l by simp
    qed
    with tch show ?thesis by simp
  next
    case False
    let ?l = "filter (\<lambda>n. fst n \<noteq> it) (lru c)"
    from False a(4) a(2) have c': "lru c' = (next_node c, r) # ?l" by simp
    have "by_recency (Suc t) (T(r := t)) (h', c')"
      using assms(2) _ _ _ _ c' na below
    proof (rule by_recency_front)
      show "r \<notin> snd ` set ?l" using d a(1,2) distinct_snd_filter_fst by fastforce
      show "set ?l \<subseteq> set (lru c)" by auto
      show "sorted_wrt (\<lambda>p q. T q < T p) (map snd ?l)"
        using srt by (simp add: sorted_wrt_map sorted_wrt_filter)
      show "distinct (map snd ?l)" using d by (simp add: distinct_map_filter)
    qed
    with tch show ?thesis by simp
  qed
qed

lemma by_recency_step:
  assumes "step x (h, c) = Inr (r, h', c')" "by_recency t T (h, c)"
  shows "by_recency (Suc t) (touch x r t T) (h', c')"
proof (cases x)
  case (OpInsert k v ch)
  with assms have "Insert k v ch (h, c) = Inr (r, h', c')" by simp
  from by_recency_Insert [OF this assms(2)] OpInsert show ?thesis
    by (simp add: touch_def)
next
  case (OpLookup k)
  with assms have "Lookup k (h, c) = Inr (r, h', c')" by simp
  from by_recency_Lookup [OF this assms(2)] OpLookup show ?thesis by simp
next
  case (OpRelease p)
  with assms have "Release p (h, c) = Inr (h', c')" by (simp del: Release.simps)
  from Release_frame(1,5) [OF this] assms(2) OpRelease show ?thesis
    by (auto simp: touch_def intro: by_recency_same)
next
  case (OpErase k)
  with assms have "Erase k (h, c) = Inr (h', c')" by simp
  from Erase_Inr [OF this] show ?thesis
  proof (elim disjE conjE exE)
    fix it p h1 c1
    assume a: "Release p (h, c) = Inr (h1, c1)" "h' = h1"
      "c' = c1\<lparr>lru := filter (\<lambda>n. fst n \<noteq> it) (lru c), table := (table c)(k := None)\<rparr>"
    have sub: "lru c' = filter (\<lambda>n. fst n \<noteq> it) (lru c) \<or> lru c' = take 0 (lru c)"
      using a(3) by simp
    have na: "next_addr h' = next_addr h" using Release_frame(5) [OF a(1)] a(2) by simp
    have "by_recency (Suc t) T (h', c')"
      using assms(2) sub na by (rule by_recency_sub) simp
    with OpErase show ?thesis by (simp add: touch_def)
  next
    assume "h' = h" "c' = c"
    with assms(2) OpErase show ?thesis by (auto simp: touch_def intro: by_recency_same)
  qed
next
  case OpPrune
  with assms have "prune_loop (map snd (lru c)) (h, c) = Inr (h', c')"
    by (simp add: Prune_def)
  from prune_loop_frame(1,4) [OF this] assms(2) OpPrune show ?thesis
    by (auto simp: touch_def intro: by_recency_same)
qed

lemma run_clock_by_recency:
  "run_clock xs (t, T, s) = Inr (t', T', s') \<Longrightarrow> by_recency t T s \<Longrightarrow> by_recency t' T' s'"
proof (induction xs arbitrary: t T s)
  case Nil
  then show ?case by simp
next
  case (Cons x xs)
  from Cons.prems(1) obtain r s1 where st: "step x s = Inr (r, s1)"
    and rest: "run_clock xs (Suc t, touch x r t T, s1) = Inr (t', T', s')"
    by (auto split: sum.splits)
  obtain h c where s: "s = (h, c)" by (cases s)
  obtain h1 c1 where s1: "s1 = (h1, c1)" by (cases s1)
  have "by_recency (Suc t) (touch x r t T) s1"
    using by_recency_step [of x h c r h1 c1 t T] st Cons.prems(2) s s1 by simp
  with rest show ?case by (rule Cons.IH)
qed

lemma by_recency_init: "by_recency 0 (\<lambda>_. 0) (init n)"
  by (simp add: by_recency_def lru_ok_def init_def LRUCache_new_def set_capacity_def)

subsection \<open>One pin at a time\<close>

lemma released_once_refl: "released_once L h h"
  by (auto simp: released_once_def split: option.splits)

lemma released_once_mono: "released_once L h h' \<Longrightarrow> L \<subseteq> L' \<Longrightarrow> released_once L' h h'"
  unfolding released_once_def
  by (intro allI, erule_tac x = a in allE) (auto split: option.splits)

lemma released_onceD:
  "released_once L h h' \<Longrightarrow> cells h a = Some e \<Longrightarrow>
    cells h' a = Some e \<or>
    (Addr a \<in> L \<and> cells h' a = (if refs e = 1 then None else Some (e\<lparr>refs := refs e - 1\<rparr>)))"
  unfolding released_once_def by (erule_tac x = a in allE) simp

lemma released_once_NoneD: "released_once L h h' \<Longrightarrow> cells h a = None \<Longrightarrow> cells h' a = None"
  unfolding released_once_def by (erule_tac x = a in allE) simp

lemma Release_released_once:
  assumes "Release p (h, c) = Inr (h', c')"
  shows "released_once {p} h h'"
proof -
  from Release_Inr [OF assms] obtain a e where ae: "p = Addr a" "cells h a = Some e"
    and eff: "if refs e = 1
     then h' = h\<lparr>cells := (cells h)(a := None)\<rparr> \<and> c' = c\<lparr>usage := usage c - charge e\<rparr>
     else h' = h\<lparr>cells := (cells h)(a \<mapsto> e\<lparr>refs := refs e - 1\<rparr>)\<rparr> \<and> c' = c"
    by blast
  show ?thesis
    unfolding released_once_def
  proof
    fix b
    show "case cells h b of None \<Rightarrow> cells h' b = None
      | Some e \<Rightarrow> cells h' b = Some e \<or>
          (Addr b \<in> {p} \<and> cells h' b = (if refs e = 1 then None else Some (e\<lparr>refs := refs e - 1\<rparr>)))"
      using ae eff by (cases "b = a") (auto split: option.splits if_splits)
  qed
qed

lemma released_once_trans:
  assumes "released_once {p} h h1" "released_once L h1 h2" "p \<notin> L"
  shows "released_once (insert p L) h h2"
  unfolding released_once_def
proof
  fix a
  show "case cells h a of None \<Rightarrow> cells h2 a = None
      | Some e \<Rightarrow> cells h2 a = Some e \<or>
          (Addr a \<in> insert p L \<and>
           cells h2 a = (if refs e = 1 then None else Some (e\<lparr>refs := refs e - 1\<rparr>)))"
  proof (cases "cells h a")
    case None
    then have "cells h1 a = None" using assms(1) by (auto dest: released_once_NoneD)
    then have "cells h2 a = None" using assms(2) by (auto dest: released_once_NoneD)
    with None show ?thesis by simp
  next
    case (Some e)
    from released_onceD [OF assms(1) Some]
    show ?thesis
    proof
      assume h1: "cells h1 a = Some e"
      from released_onceD [OF assms(2) h1] Some show ?thesis by auto
    next
      assume p: "Addr a \<in> {p} \<and>
        cells h1 a = (if refs e = 1 then None else Some (e\<lparr>refs := refs e - 1\<rparr>))"
      show ?thesis
      proof (cases "refs e = 1")
        case True
        with p have "cells h1 a = None" by simp
        then have "cells h2 a = None" using assms(2) by (auto dest: released_once_NoneD)
        with Some True p show ?thesis by simp
      next
        case False
        with p have h1: "cells h1 a = Some (e\<lparr>refs := refs e - 1\<rparr>)" by simp
        from released_onceD [OF assms(2) h1] p assms(3)
        have "cells h2 a = Some (e\<lparr>refs := refs e - 1\<rparr>)" by auto
        with Some False p show ?thesis by simp
      qed
    qed
  qed
qed

lemma evict_released_once:
  "evict s = Inr s' \<Longrightarrow> distinct (map snd (lru (snd s))) \<Longrightarrow>
    released_once (snd ` set (lru (snd s))) (fst s) (fst s')"
proof (induction s rule: evict.induct)
  case (1 h c)
  from evict_Inr [OF "1.prems"(1)] show ?case
  proof (elim disjE conjE exE)
    assume "s' = (h, c)"
    then show ?thesis by (simp add: released_once_refl)
  next
    fix e h1 c1
    assume a: "capacity c < usage c" "lru c \<noteq> []"
      "deref h (snd (last (lru c))) = Some e"
      "Release (snd (last (lru c)))
         (h, c\<lparr>table := (table c)(key e := None), lru := butlast (lru c)\<rparr>) = Inr (h1, c1)"
      "evict (h1, c1) = Inr s'"
    have l1: "lru c1 = butlast (lru c)" using Release_frame(1) [OF a(4)] by simp
    from a(2) have split: "lru c = butlast (lru c) @ [last (lru c)]" by simp
    from "1.prems"(2) have "distinct (map snd (lru c))" by simp
    then have "distinct (map snd (butlast (lru c) @ [last (lru c)]))"
      by (simp only: split [symmetric])
    then have d: "distinct (map snd (butlast (lru c)) @ [snd (last (lru c))])"
      by simp
    then have d1: "distinct (map snd (lru c1))" and notin: "snd (last (lru c)) \<notin> snd ` set (lru c1)"
      using l1 by auto
    have both: "capacity c < usage c \<and> lru c \<noteq> []" using a(1,2) by simp
    have ih: "released_once (snd ` set (lru c1)) h1 (fst s')"
      using "1.IH" [OF both refl a(3,4,5)] d1 by simp
    have r: "released_once {snd (last (lru c))} h h1"
      using a(4) by (rule Release_released_once)
    have "released_once (insert (snd (last (lru c))) (snd ` set (lru c1))) h (fst s')"
      using r ih notin by (rule released_once_trans)
    moreover have "set (lru c) = insert (last (lru c)) (set (butlast (lru c)))"
      using a(2) by (metis Un_insert_right append_Nil2 list.simps(15) set_append split)
    then have "insert (snd (last (lru c))) (snd ` set (lru c1)) = snd ` set (lru c)"
      using l1 by simp
    ultimately show ?thesis by simp
  qed
qed

lemma prune_loop_released_once:
  "prune_loop ps s = Inr s' \<Longrightarrow> distinct ps \<Longrightarrow> released_once (set ps) (fst s) (fst s')"
proof (induction ps s rule: prune_loop.induct)
  case (1 s)
  then show ?case by (simp add: released_once_refl)
next
  case (2 it rest h c)
  from "2.prems"(1) obtain e where e: "deref h it = Some e"
    by (auto split: option.splits)
  from "2.prems"(2) have d: "distinct rest" "it \<notin> set rest" by simp_all
  show ?case
  proof (cases "refs e = 1")
    case True
    with "2.prems"(1) e obtain s1 where
      r: "Release it (h, c\<lparr>table := (table c)(key e := None)\<rparr>) = Inr s1"
      and rest: "prune_loop rest s1 = Inr s'"
      by (auto split: sum.splits)
    obtain h1 c1 where s1: "s1 = (h1, c1)" by (cases s1)
    have "released_once {it} h h1" using r s1 by (auto intro: Release_released_once)
    moreover have "released_once (set rest) h1 (fst s')"
      using "2.IH"(1) [OF e True r rest d(1)] s1 by simp
    ultimately have "released_once (insert it (set rest)) h (fst s')"
      using d(2) by (rule released_once_trans)
    then show ?thesis by simp
  next
    case False
    with "2.prems"(1) e have "prune_loop rest (h, c) = Inr s'" by simp
    from "2.IH"(2) [OF e False this d(1)] have "released_once (set rest) h (fst s')" by simp
    then have "released_once (set (it # rest)) h (fst s')"
      by (rule released_once_mono) auto
    then show ?thesis by simp
  qed
qed

lemma acct_step:
  assumes "step x (h, c) = Inr (r, h', c')" "acct (h, c)"
  shows "acct (h', c')"
proof -
  from assms(2) have "budget (live_charge h) (h, c)" by (simp add: budget_def)
  with assms(1) have "budget (live_charge h + op_charge x) (h', c')" by (rule budget_step)
  then show ?thesis by (simp add: budget_def)
qed

lemma run_acct_lru_ok:
  "run xs s = Inr s' \<Longrightarrow> acct s \<Longrightarrow> lru_ok s \<Longrightarrow> acct s' \<and> lru_ok s'"
proof (induction xs arbitrary: s)
  case Nil
  then show ?case by simp
next
  case (Cons x xs)
  from Cons.prems(1) obtain r s1 where st: "step x s = Inr (r, s1)" and rest: "run xs s1 = Inr s'"
    by (auto split: sum.splits)
  obtain h c where s: "s = (h, c)" by (cases s)
  obtain h1 c1 where s1: "s1 = (h1, c1)" by (cases s1)
  have "acct s1" using acct_step [of x h c r h1 c1] st Cons.prems(2) s s1 by simp
  moreover have "lru_ok s1" using lru_ok_step [of x h c r h1 c1] st Cons.prems(3) s s1 by simp
  ultimately show ?case using Cons.IH [OF rest] by simp
qed

lemma init_acct: "acct (init n)"
  by (simp add: acct_def heap_ok_def live_charge_def init_def empty_heap_def LRUCache_new_def
      set_capacity_def)

lemma init_lru_ok: "lru_ok (init n)"
  by (simp add: lru_ok_def init_def LRUCache_new_def set_capacity_def)

lemma step_cell:
  assumes st: "step x (h, c) = Inr (r, h', c')" and ok: "lru_ok (h, c)" and hp: "heap_ok h"
    and live: "cells h a = Some e"
  shows "cells h' a = Some e \<or>
    ((\<exists>k. x = OpLookup k) \<and> Addr a \<in> snd ` set (lru c) \<and> r = Addr a \<and>
       cells h' a = Some (e\<lparr>refs := refs e + 1\<rparr>)) \<or>
    ((Addr a \<in> snd ` set (lru c) \<or> x = OpRelease (Addr a)) \<and>
       cells h' a = (if refs e = 1 then None else Some (e\<lparr>refs := refs e - 1\<rparr>)))"
proof (cases x)
  case (OpInsert k v ch)
  let ?h1 = "h\<lparr>cells := (cells h)(next_addr h \<mapsto> \<lparr>key = k, val = v, refs = 2, charge = ch\<rparr>),
             next_addr := Suc (next_addr h)\<rparr>"
  let ?c1 = "c\<lparr>lru := (next_node c, Addr (next_addr h)) # lru c, next_node := Suc (next_node c),
             table := (table c)(k \<mapsto> next_node c), usage := usage c + ch\<rparr>"
  from st OpInsert have "Insert k v ch (h, c) = Inr (r, h', c')" by simp
  from Insert_Inr [OF this] have ev: "evict (?h1, ?c1) = Inr (h', c')" by simp
  have lt: "a < next_addr h" using hp live by (rule heap_ok_live)
  from ok have "distinct (map snd (lru ?c1))"
    by (fastforce simp: lru_ok_def)
  with ev have "released_once (snd ` set (lru ?c1)) ?h1 h'"
    using evict_released_once [of "(?h1, ?c1)" "(h', c')"] by simp
  moreover have "cells ?h1 a = Some e" using live lt by simp
  ultimately have "cells h' a = Some e \<or>
    (Addr a \<in> snd ` set (lru ?c1) \<and>
       cells h' a = (if refs e = 1 then None else Some (e\<lparr>refs := refs e - 1\<rparr>)))"
    by (rule released_onceD)
  with lt show ?thesis by auto
next
  case (OpLookup k)
  with st have "Lookup k (h, c) = Inr (r, h', c')" by simp
  from Lookup_Inr [OF this] show ?thesis
  proof (elim disjE conjE exE)
    assume "h' = h"
    with live show ?thesis by simp
  next
    fix it a0 e0
    assume a: "map_of (lru c) it = Some (Addr a0)" "r = Addr a0" "cells h a0 = Some e0"
      "h' = h\<lparr>cells := (cells h)(a0 \<mapsto> e0\<lparr>refs := refs e0 + 1\<rparr>)\<rparr>"
    from a(1) have "(it, Addr a0) \<in> set (lru c)" by (rule map_of_SomeD)
    then have "Addr a0 \<in> snd ` set (lru c)" by force
    with a live OpLookup show ?thesis by (cases "a = a0") auto
  qed
next
  case (OpRelease p)
  with st have "Release p (h, c) = Inr (h', c')" by (simp del: Release.simps)
  then have "released_once {p} h h'" by (rule Release_released_once)
  from released_onceD [OF this live] OpRelease show ?thesis by auto
next
  case (OpErase k)
  with st have "Erase k (h, c) = Inr (h', c')" by simp
  from Erase_Inr [OF this] show ?thesis
  proof (elim disjE conjE exE)
    assume "h' = h"
    with live show ?thesis by simp
  next
    fix it p h1 c1
    assume a: "map_of (lru c) it = Some p" "Release p (h, c) = Inr (h1, c1)" "h' = h1"
    from a(1) have "(it, p) \<in> set (lru c)" by (rule map_of_SomeD)
    then have "p \<in> snd ` set (lru c)" by force
    moreover from a(2) have "released_once {p} h h1" by (rule Release_released_once)
    from released_onceD [OF this live] have "cells h1 a = Some e \<or>
      (Addr a = p \<and> cells h1 a = (if refs e = 1 then None else Some (e\<lparr>refs := refs e - 1\<rparr>)))"
      by simp
    ultimately show ?thesis using a(3) by auto
  qed
next
  case OpPrune
  with st have "prune_loop (map snd (lru c)) (h, c) = Inr (h', c')"
    by (simp add: Prune_def)
  moreover from ok have "distinct (map snd (lru c))" by (simp add: lru_ok_def)
  ultimately have "released_once (set (map snd (lru c))) h h'"
    using prune_loop_released_once [of "map snd (lru c)" "(h, c)" "(h', c')"] by simp
  from released_onceD [OF this live] show ?thesis by auto
qed

subsection \<open>The keys of the table\<close>

lemma keyedI:
  assumes "\<And>a e. cells h a = Some e \<Longrightarrow> key e = K a"
    and "distinct (map fst (lru c))"
    and "\<And>n p. (n, p) \<in> set (lru c) \<Longrightarrow> n < next_node c"
    and "\<And>k it. table c k = Some it \<Longrightarrow> it < next_node c"
    and "\<And>k it. table c k = Some it \<Longrightarrow> \<exists>n a. (n, Addr a) \<in> set (lru c) \<and> K a = k"
    and "\<And>k it a. table c k = Some it \<Longrightarrow> (it, Addr a) \<in> set (lru c) \<Longrightarrow> K a = k"
  shows "keyed K (h, c)"
  unfolding keyed_def fst_conv snd_conv
proof (intro conjI allI impI ballI)
  fix n assume "n \<in> fst ` set (lru c)"
  then obtain p where "(n, p) \<in> set (lru c)" by auto
  then show "n < next_node c" by (rule assms(3))
qed (use assms in blast)+

lemma keyedD:
  assumes "keyed K (h, c)"
  shows "cells h a = Some e \<Longrightarrow> key e = K a"
    and "distinct (map fst (lru c))"
    and "(n, p) \<in> set (lru c) \<Longrightarrow> n < next_node c"
    and "table c k = Some it \<Longrightarrow> it < next_node c"
    and "table c k = Some it \<Longrightarrow> \<exists>n a. (n, Addr a) \<in> set (lru c) \<and> K a = k"
    and "table c k = Some it \<Longrightarrow> (it, Addr a) \<in> set (lru c) \<Longrightarrow> K a = k"
proof -
  note k = assms [unfolded keyed_def fst_conv snd_conv]
  from k show "cells h a = Some e \<Longrightarrow> key e = K a" by blast
  from k show "distinct (map fst (lru c))" by blast
  from k have "\<forall>n\<in>fst ` set (lru c). n < next_node c" by blast
  then show "(n, p) \<in> set (lru c) \<Longrightarrow> n < next_node c" by force
  from k show "table c k = Some it \<Longrightarrow> it < next_node c" by blast
  from k show "table c k = Some it \<Longrightarrow> \<exists>n a. (n, Addr a) \<in> set (lru c) \<and> K a = k" by blast
  from k show "table c k = Some it \<Longrightarrow> (it, Addr a) \<in> set (lru c) \<Longrightarrow> K a = k" by blast
qed

lemma keyed_Release:
  assumes r: "Release p (h, c) = Inr (h', c')" and k: "keyed K (h, c)"
  shows "keyed K (h', c')"
proof -
  note fr = Release_frame [OF r]
  from Release_Inr [OF r] obtain a e where e: "cells h a = Some e"
    and h': "h' = h\<lparr>cells := (cells h)(a := None)\<rparr> \<or>
             h' = h\<lparr>cells := (cells h)(a \<mapsto> e\<lparr>refs := refs e - 1\<rparr>)\<rparr>"
    by (auto split: if_splits)
  show ?thesis
  proof (rule keyedI)
    fix b e' assume "cells h' b = Some e'"
    with h' e have "\<exists>e0. cells h b = Some e0 \<and> key e' = key e0"
      by (auto split: if_splits)
    with keyedD(1) [OF k] show "key e' = K b" by auto
  next
    show "distinct (map fst (lru c'))" using keyedD(2) [OF k] fr by simp
  next
    fix n q assume "(n, q) \<in> set (lru c')"
    then show "n < next_node c'" using keyedD(3) [OF k] fr by simp
  next
    fix k' it assume t: "table c' k' = Some it"
    then show "it < next_node c'" using keyedD(4) [OF k] fr by simp
    from t show "\<exists>n a. (n, Addr a) \<in> set (lru c') \<and> K a = k'"
      using keyedD(5) [OF k, of k' it] fr by simp
    fix b assume "(it, Addr b) \<in> set (lru c')"
    with t show "K b = k'" using keyedD(6) [OF k, of k' it b] fr by simp
  qed
qed

lemma keyed_evict:
  assumes ev: "evict (h, c) = Inr (h', c')" and k: "keyed K (h, c)"
  shows "keyed K (h', c')"
  using ev
proof (rule evict_preserves [where P = "keyed K"])
  show "keyed K (h, c)" by (rule k)
next
  fix h0 c0 e h1 c1
  assume k0: "keyed K (h0, c0)" and ne: "lru c0 \<noteq> []"
    and e: "deref h0 (snd (last (lru c0))) = Some e"
    and r: "Release (snd (last (lru c0)))
         (h0, c0\<lparr>table := (table c0)(key e := None), lru := butlast (lru c0)\<rparr>) = Inr (h1, c1)"
  from e obtain a where a: "snd (last (lru c0)) = Addr a" and ce: "cells h0 a = Some e"
    by (cases "snd (last (lru c0))") auto
  from ce have Ka: "K a = key e" using keyedD(1) [OF k0] by simp
  from ne have l: "lru c0 = butlast (lru c0) @ [last (lru c0)]" by simp
  have sub: "set (butlast (lru c0)) \<subseteq> set (lru c0)"
    by (auto dest: in_set_butlastD)
  have "keyed K (h0, c0\<lparr>table := (table c0)(key e := None), lru := butlast (lru c0)\<rparr>)"
  proof (rule keyedI)
    fix b e' assume "cells h0 b = Some e'"
    then show "key e' = K b" by (rule keyedD(1) [OF k0])
  next
    show "distinct (map fst (lru (c0\<lparr>table := (table c0)(key e := None), lru := butlast (lru c0)\<rparr>)))"
      using keyedD(2) [OF k0] by (simp add: map_butlast distinct_butlast)
  next
    fix n q assume "(n, q) \<in> set (lru (c0\<lparr>table := (table c0)(key e := None), lru := butlast (lru c0)\<rparr>))"
    with sub have "(n, q) \<in> set (lru c0)" by auto
    then show "n < next_node (c0\<lparr>table := (table c0)(key e := None), lru := butlast (lru c0)\<rparr>)"
      using keyedD(3) [OF k0] by simp
  next
    fix k' it
    assume "table (c0\<lparr>table := (table c0)(key e := None), lru := butlast (lru c0)\<rparr>) k' = Some it"
    then have t: "table c0 k' = Some it" and kk: "k' \<noteq> key e"
      by (auto split: if_splits)
    from t show "it < next_node (c0\<lparr>table := (table c0)(key e := None), lru := butlast (lru c0)\<rparr>)"
      using keyedD(4) [OF k0] by simp
    from keyedD(5) [OF k0 t] obtain n b where nb: "(n, Addr b) \<in> set (lru c0)" "K b = k'"
      by blast
    with kk Ka have "b \<noteq> a" by auto
    with a have "(n, Addr b) \<noteq> last (lru c0)" by (cases "last (lru c0)") auto
    with nb(1) l have "(n, Addr b) \<in> set (butlast (lru c0))"
      by (metis Un_iff empty_iff empty_set set_ConsD set_append)
    with nb(2)
    show "\<exists>n a. (n, Addr a) \<in> set (lru (c0\<lparr>table := (table c0)(key e := None),
        lru := butlast (lru c0)\<rparr>)) \<and> K a = k'"
      by auto
    fix b' assume "(it, Addr b') \<in> set (lru (c0\<lparr>table := (table c0)(key e := None),
        lru := butlast (lru c0)\<rparr>))"
    with sub have "(it, Addr b') \<in> set (lru c0)" by auto
    with t show "K b' = k'" by (rule keyedD(6) [OF k0])
  qed
  with r show "keyed K (h1, c1)" by (rule keyed_Release)
qed


lemma keyed_prune_loop:
  assumes pl: "prune_loop ps (h, c) = Inr (h', c')" and k: "keyed K (h, c)"
  shows "keyed K (h', c')"
  using pl
proof (rule prune_loop_preserves [where P = "keyed K"])
  show "keyed K (h, c)" by (rule k)
next
  fix h0 c0 q e h1 c1
  assume k0: "keyed K (h0, c0)"
    and r: "Release q (h0, c0\<lparr>table := (table c0)(key e := None)\<rparr>) = Inr (h1, c1)"
  have "keyed K (h0, c0\<lparr>table := (table c0)(key e := None)\<rparr>)"
  proof (rule keyedI)
    fix b e' assume "cells h0 b = Some e'"
    then show "key e' = K b" by (rule keyedD(1) [OF k0])
  next
    show "distinct (map fst (lru (c0\<lparr>table := (table c0)(key e := None)\<rparr>)))"
      using keyedD(2) [OF k0] by simp
  next
    fix n q assume "(n, q) \<in> set (lru (c0\<lparr>table := (table c0)(key e := None)\<rparr>))"
    then show "n < next_node (c0\<lparr>table := (table c0)(key e := None)\<rparr>)"
      using keyedD(3) [OF k0] by simp
  next
    fix k' it
    assume "table (c0\<lparr>table := (table c0)(key e := None)\<rparr>) k' = Some it"
    then have t: "table c0 k' = Some it"
      by (auto split: if_splits)
    from t show "it < next_node (c0\<lparr>table := (table c0)(key e := None)\<rparr>)"
      using keyedD(4) [OF k0] by simp
    from keyedD(5) [OF k0 t]
    show "\<exists>n a. (n, Addr a) \<in> set (lru (c0\<lparr>table := (table c0)(key e := None)\<rparr>)) \<and> K a = k'"
      by simp
    fix b' assume "(it, Addr b') \<in> set (lru (c0\<lparr>table := (table c0)(key e := None)\<rparr>))"
    with t show "K b' = k'" using keyedD(6) [OF k0] by simp
  qed
  with r show "keyed K (h1, c1)" by (rule keyed_Release)
qed

lemma keyed_Insert:
  assumes ins: "Insert k v ch (h, c) = Inr (r, h', c')" and k: "keyed K (h, c)"
    and ok: "lru_ok (h, c)"
  shows "keyed (K(next_addr h := k)) (h', c')"
proof -
  let ?K = "K(next_addr h := k)"
  let ?h1 = "h\<lparr>cells := (cells h)(next_addr h \<mapsto> \<lparr>key = k, val = v, refs = 2, charge = ch\<rparr>),
             next_addr := Suc (next_addr h)\<rparr>"
  let ?c1 = "c\<lparr>lru := (next_node c, Addr (next_addr h)) # lru c, next_node := Suc (next_node c),
             table := (table c)(k \<mapsto> next_node c), usage := usage c + ch\<rparr>"
  from Insert_Inr [OF ins] have ev: "evict (?h1, ?c1) = Inr (h', c')"
    by simp
  have below: "a < next_addr h" if "(n, Addr a) \<in> set (lru c)" for n a
  proof -
    from that have "Addr a \<in> snd ` set (lru c)" by force
    with ok show ?thesis by (auto simp: lru_ok_def)
  qed
  have "keyed ?K (?h1, ?c1)"
  proof (rule keyedI)
    fix b e' assume "cells ?h1 b = Some e'"
    then show "key e' = ?K b"
      using keyedD(1) [OF k, of b e'] by (auto split: if_splits)
  next
    have "next_node c \<notin> fst ` set (lru c)"
      using keyedD(3) [OF k] by fastforce
    then show "distinct (map fst (lru ?c1))"
      using keyedD(2) [OF k] by simp
  next
    fix n q assume "(n, q) \<in> set (lru ?c1)"
    then show "n < next_node ?c1"
      using keyedD(3) [OF k, of n q] by auto
  next
    fix k' it
    assume t: "table ?c1 k' = Some it"
    show "it < next_node ?c1"
      using t keyedD(4) [OF k, of k' it] by (auto split: if_splits)
    show "\<exists>n a. (n, Addr a) \<in> set (lru ?c1) \<and> ?K a = k'"
    proof (cases "k' = k")
      case True
      then have "(next_node c, Addr (next_addr h)) \<in> set (lru ?c1) \<and> ?K (next_addr h) = k'"
        by simp
      then show ?thesis by blast
    next
      case False
      with t have "table c k' = Some it" by simp
      from keyedD(5) [OF k this] obtain n a where na: "(n, Addr a) \<in> set (lru c)" "K a = k'"
        by blast
      from below [OF na(1)] na have "(n, Addr a) \<in> set (lru ?c1) \<and> ?K a = k'"
        by simp
      then show ?thesis by blast
    qed
    fix b assume b: "(it, Addr b) \<in> set (lru ?c1)"
    show "?K b = k'"
    proof (cases "k' = k")
      case True
      with t have it: "it = next_node c" by simp
      with b keyedD(3) [OF k, of it "Addr b"] have "b = next_addr h" by auto
      with True show ?thesis by simp
    next
      case False
      with t have t0: "table c k' = Some it" by simp
      from keyedD(4) [OF k t0] b have b0: "(it, Addr b) \<in> set (lru c)" by auto
      from keyedD(6) [OF k t0 b0] below [OF b0] show ?thesis by simp
    qed
  qed
  with ev show ?thesis by (rule keyed_evict)
qed

lemma keyed_Lookup:
  assumes lk: "Lookup k (h, c) = Inr (r, h', c')" and k: "keyed K (h, c)"
  shows "keyed K (h', c')"
  using Lookup_Inr [OF lk]
proof (elim disjE conjE exE)
  assume "h' = h" "c' = c"
  with k show ?thesis by simp
next
  fix it a e
  assume t: "table c k = Some it" and m: "map_of (lru c) it = Some (Addr a)"
    and e: "cells h a = Some e"
    and h': "h' = h\<lparr>cells := (cells h)(a \<mapsto> e\<lparr>refs := refs e + 1\<rparr>)\<rparr>"
    and c': "if at_begin (lru c) it then c' = c
        else c' = c\<lparr>lru := (next_node c, Addr a) # filter (\<lambda>n. fst n \<noteq> it) (lru c),
                   next_node := Suc (next_node c)\<rparr>"
  from m have ita: "(it, Addr a) \<in> set (lru c)" by (rule map_of_SomeD)
  have cells: "key e' = K b" if "cells h' b = Some e'" for b e'
  proof -
    from that h' e have "\<exists>e0. cells h b = Some e0 \<and> key e' = key e0"
      by (auto split: if_splits)
    with keyedD(1) [OF k] show ?thesis by auto
  qed
  show ?thesis
  proof (cases "at_begin (lru c) it")
    case True
    with c' have cc: "c' = c" by simp
    show ?thesis
    proof (rule keyedI)
      fix b e' assume "cells h' b = Some e'"
      then show "key e' = K b" by (rule cells)
    qed (use k cc in \<open>auto dest: keyedD\<close>)
  next
    case False
    with c' have cc: "c' = c\<lparr>lru := (next_node c, Addr a) # filter (\<lambda>n. fst n \<noteq> it) (lru c),
                   next_node := Suc (next_node c)\<rparr>" by simp
    show ?thesis
    proof (rule keyedI)
      fix b e' assume "cells h' b = Some e'"
      then show "key e' = K b" by (rule cells)
    next
      have "next_node c \<notin> fst ` set (filter (\<lambda>n. fst n \<noteq> it) (lru c))"
        using keyedD(3) [OF k] by fastforce
      then show "distinct (map fst (lru c'))"
        using keyedD(2) [OF k] cc by (simp add: distinct_map_filter)
    next
      fix n q assume "(n, q) \<in> set (lru c')"
      then show "n < next_node c'"
        using keyedD(3) [OF k, of n q] cc by auto
    next
      fix k' it'
      assume t': "table c' k' = Some it'"
      with cc have t0: "table c k' = Some it'" by simp
      show "it' < next_node c'"
        using keyedD(4) [OF k t0] cc by simp
      from keyedD(5) [OF k t0] obtain n b where nb: "(n, Addr b) \<in> set (lru c)" "K b = k'"
        by blast
      show "\<exists>n a. (n, Addr a) \<in> set (lru c') \<and> K a = k'"
      proof (cases "n = it")
        case True
        with nb(1) ita keyedD(2) [OF k] have "b = a"
          by (metis eq_key_imp_eq_value handle_ptr.inject)
        with nb(2) cc have "(next_node c, Addr a) \<in> set (lru c') \<and> K a = k'" by simp
        then show ?thesis by blast
      next
        case False
        with nb cc have "(n, Addr b) \<in> set (lru c') \<and> K b = k'" by simp
        then show ?thesis by blast
      qed
      fix b assume b: "(it', Addr b) \<in> set (lru c')"
      from keyedD(4) [OF k t0] b cc have "(it', Addr b) \<in> set (lru c)" by auto
      with t0 show "K b = k'" by (rule keyedD(6) [OF k])
    qed
  qed
qed

lemma keyed_Erase:
  assumes er: "Erase k (h, c) = Inr (h', c')" and k: "keyed K (h, c)"
  shows "keyed K (h', c')"
  using Erase_Inr [OF er]
proof (elim disjE conjE exE)
  assume "h' = h" "c' = c"
  with k show ?thesis by simp
next
  fix it p h1 c1
  assume t: "table c k = Some it" and r: "Release p (h, c) = Inr (h1, c1)" and h': "h' = h1"
    and c': "c' = c1\<lparr>lru := filter (\<lambda>n. fst n \<noteq> it) (lru c), table := (table c)(k := None)\<rparr>"
  note fr = Release_frame [OF r]
  from r k have k1: "keyed K (h1, c1)" by (rule keyed_Release)
  show ?thesis
  proof (rule keyedI)
    fix b e' assume "cells h' b = Some e'"
    then show "key e' = K b" using keyedD(1) [OF k1] h' by simp
  next
    show "distinct (map fst (lru c'))"
      using keyedD(2) [OF k] c' by (simp add: distinct_map_filter)
  next
    fix n q assume "(n, q) \<in> set (lru c')"
    then show "n < next_node c'"
      using keyedD(3) [OF k, of n q] c' fr by auto
  next
    fix k' it'
    assume t': "table c' k' = Some it'"
    with c' have t0: "table c k' = Some it'" and kk: "k' \<noteq> k"
      by (auto split: if_splits)
    show "it' < next_node c'"
      using keyedD(4) [OF k t0] c' fr by simp
    from keyedD(5) [OF k t0] obtain n b where nb: "(n, Addr b) \<in> set (lru c)" "K b = k'"
      by blast
    have "n \<noteq> it"
    proof
      assume "n = it"
      with nb(1) have "K b = k" using keyedD(6) [OF k t] by simp
      with nb(2) kk show False by simp
    qed
    with nb c' have "(n, Addr b) \<in> set (lru c') \<and> K b = k'" by simp
    then show "\<exists>n a. (n, Addr a) \<in> set (lru c') \<and> K a = k'" by blast
    fix b' assume "(it', Addr b') \<in> set (lru c')"
    with c' have "(it', Addr b') \<in> set (lru c)" by simp
    with t0 show "K b' = k'" by (rule keyedD(6) [OF k])
  qed
qed

lemma keyed_step:
  assumes st: "step x (h, c) = Inr (r, h', c')" and k: "keyed K (h, c)" and ok: "lru_ok (h, c)"
  shows "\<exists>K'. keyed K' (h', c')"
proof (cases x)
  case (OpInsert k0 v ch)
  with st have "Insert k0 v ch (h, c) = Inr (r, h', c')" by simp
  from keyed_Insert [OF this k ok] show ?thesis by blast
next
  case (OpLookup k0)
  with st have "Lookup k0 (h, c) = Inr (r, h', c')" by simp
  from keyed_Lookup [OF this k] show ?thesis by blast
next
  case (OpRelease p)
  with st have "Release p (h, c) = Inr (h', c')" by simp
  from keyed_Release [OF this k] show ?thesis by blast
next
  case (OpErase k0)
  with st have "Erase k0 (h, c) = Inr (h', c')" by simp
  from keyed_Erase [OF this k] show ?thesis by blast
next
  case OpPrune
  with st have "prune_loop (map snd (lru c)) (h, c) = Inr (h', c')"
    by (simp add: Prune_def)
  from keyed_prune_loop [OF this k] show ?thesis by blast
qed

lemma run_keyed:
  "run xs s = Inr s' \<Longrightarrow> keyed K s \<Longrightarrow> lru_ok s \<Longrightarrow> \<exists>K'. keyed K' s'"
proof (induction xs arbitrary: s K)
  case Nil
  then show ?case by auto
next
  case (Cons x xs)
  from Cons.prems(1) obtain r s1 where st: "step x s = Inr (r, s1)" and rest: "run xs s1 = Inr s'"
    by (auto split: sum.splits)
  obtain h c where s: "s = (h, c)" by (cases s)
  obtain h1 c1 where s1: "s1 = (h1, c1)" by (cases s1)
  from st s s1 have st': "step x (h, c) = Inr (r, h1, c1)" by simp
  from keyed_step [OF st'] Cons.prems(2,3) s obtain K1 where "keyed K1 s1"
    using s1 by auto
  moreover have "lru_ok s1" using lru_ok_step [OF st'] Cons.prems(3) s s1 by simp
  ultimately show ?case using Cons.IH [OF rest] by blast
qed

lemma init_keyed: "keyed K (init n)"
  by (simp add: keyed_def init_def empty_heap_def LRUCache_new_def set_capacity_def)

section \<open>The claims\<close>

subsection \<open>Release\<close>

text \<open>
  Claim C8, as amended. \<open>Release(handle)\<close> has one check, the assert on the pin count
  (line 142): it fails fatally exactly when the handle refers to an entry whose pin count is
  zero. When the handle refers to an entry whose pin count is positive, Release succeeds
  and decrements it by one; if it was 1, the entry is destroyed and its charge is
  subtracted from \<open>usage_\<close>, otherwise the entry stays with one pin less and \<open>usage_\<close>
  is unchanged. No other handle, and nothing else in the cache, changes.
\<close>

theorem Release_contract:
  "(fails_fatally (Release p (h, c)) \<longleftrightarrow> (\<exists>e. deref h p = Some e \<and> refs e = 0)) \<and>
   (\<forall>e. deref h p = Some e \<and> 0 < refs e \<longrightarrow>
      (\<exists>h' c'. Release p (h, c) = Inr (h', c') \<and>
         (refs e = 1 \<longrightarrow> deref h' p = None \<and> usage c' = usage c - charge e) \<and>
         (refs e \<noteq> 1 \<longrightarrow>
            deref h' p = Some (e\<lparr>refs := refs e - 1\<rparr>) \<and> usage c' = usage c) \<and>
         (\<forall>q. q \<noteq> p \<longrightarrow> deref h' q = deref h q) \<and>
         next_addr h' = next_addr h \<and>
         lru c' = lru c \<and> table c' = table c \<and> capacity c' = capacity c \<and>
         next_node c' = next_node c))"
proof (intro conjI allI impI)
  show "fails_fatally (Release p (h, c)) \<longleftrightarrow> (\<exists>e. deref h p = Some e \<and> refs e = 0)"
    by (auto simp: fails_fatally_def word_gt_0 split: option.splits)
next
  fix e
  assume live: "deref h p = Some e \<and> 0 < refs e"
  then have nonnull: "p \<noteq> nullptr"
    by (auto dest: deref_nullptr_iff)
  show "\<exists>h' c'. Release p (h, c) = Inr (h', c') \<and>
         (refs e = 1 \<longrightarrow> deref h' p = None \<and> usage c' = usage c - charge e) \<and>
         (refs e \<noteq> 1 \<longrightarrow>
            deref h' p = Some (e\<lparr>refs := refs e - 1\<rparr>) \<and> usage c' = usage c) \<and>
         (\<forall>q. q \<noteq> p \<longrightarrow> deref h' q = deref h q) \<and>
         next_addr h' = next_addr h \<and>
         lru c' = lru c \<and> table c' = table c \<and> capacity c' = capacity c \<and>
         next_node c' = next_node c"
  proof (cases "refs e = 1")
    case True
    with live nonnull show ?thesis
      by (simp add: deref_delete next_addr_delete)
  next
    case False
    then have "refs e - 1 \<noteq> 0"
      by simp
    with live nonnull False show ?thesis
      by (simp add: deref_store next_addr_store)
  qed
qed

text \<open>
  The theorem at the last pin of an entry of charge 3, with \<open>usage_\<close> at 5: no failure,
  the entry is destroyed and \<open>usage_\<close> is 2.
\<close>

theorem Release_contract_witness:
  "\<not> fails_fatally (Release (Addr 0)
      (\<lparr>cells = (\<lambda>_. None)(0 \<mapsto> \<lparr>key = (1::nat), val = (10::nat), refs = 1, charge = 3\<rparr>),
        next_addr = 1\<rparr>,
       \<lparr>usage = 5, capacity = 8, lru = [], table = (\<lambda>_. None), next_node = 1\<rparr>)) \<and>
   (\<exists>h' c'. Release (Addr 0)
      (\<lparr>cells = (\<lambda>_. None)(0 \<mapsto> \<lparr>key = (1::nat), val = (10::nat), refs = 1, charge = 3\<rparr>),
        next_addr = 1\<rparr>,
       \<lparr>usage = 5, capacity = 8, lru = [], table = (\<lambda>_. None), next_node = 1\<rparr>)
      = Inr (h', c') \<and> deref h' (Addr 0) = None \<and> usage c' = 2)"
  using Release_contract [of "Addr 0"
      "\<lparr>cells = (\<lambda>_. None)(0 \<mapsto> \<lparr>key = (1::nat), val = (10::nat), refs = 1, charge = 3\<rparr>),
        next_addr = 1\<rparr>"
      "\<lparr>usage = 5, capacity = 8, lru = [], table = (\<lambda>_. None), next_node = 1\<rparr>"]
  by (simp add: delete.simps)

text \<open>
  Claim C8 as stated, at a null handle and at a handle whose entry has been destroyed
  (\<open>Insert(1, 10)\<close>, \<open>Erase(1)\<close>, \<open>Release\<close> of the returned handle, and then
  \<open>Release\<close> of it once more): no assert fails. \<open>Release\<close> reads \<open>handle->refs\<close>
  through the handle without looking at the pointer first, and C++ leaves that read
  undefined.
\<close>

theorem Release_reads_unchecked_handle:
  "\<not> fails_fatally (Release nullptr (init 2 :: (nat, nat) state)) \<and>
   Release nullptr (init 2 :: (nat, nat) state) = Inl InvalidHandle \<and>
   (case run [OpInsert (1::nat) (10::nat) 1, OpErase 1, OpRelease (Addr 0)] (init 2) of
      Inl err \<Rightarrow> False
    | Inr s \<Rightarrow> deref (fst s) (Addr 0) = None \<and> \<not> fails_fatally (Release (Addr 0) s) \<and>
        Release (Addr 0) s = Inl InvalidHandle)"
  by (simp add: cache_defs fails_fatally_def)

subsection \<open>Insert on a registered key\<close>

text \<open>
  Claim C2. The overwrite branch of \<open>Insert\<close> (lines 96-99) erases the node of the old
  entry and then reads the old entry through the iterator of that node. The read is
  invalid in every state (\<open>Insert_registered\<close>): the call neither releases the old
  entry nor registers the new one. Here at the calls \<open>Insert(1, 10)\<close>,
  \<open>Insert(1, 20)\<close> on an empty cache of capacity 2.
\<close>

theorem Insert_overwrite_reads_erased_node:
  "run [OpInsert (1::nat) (10::nat) 1, OpInsert 1 20 1] (init 2) = Inl InvalidIterator"
  by (simp add: cache_defs)

subsection \<open>Lookup\<close>

text \<open>
  On a key that is not in \<open>table_\<close>, \<open>Lookup\<close> returns \<open>nullptr\<close> and changes
  nothing. On a key whose iterator is the iterator of a node of \<open>lru_\<close>, it returns
  the element of that node with one more pin, at the front of \<open>lru_\<close>. But when it
  moves the entry, it makes a new node and leaves the iterator of the erased one in
  \<open>table_\<close>: the next \<open>Lookup\<close> of the same key reads through an invalid iterator.
\<close>

lemma Lookup_absent: "table c k = None \<Longrightarrow> Lookup k (h, c) = Inr (nullptr, h, c)"
  by (simp add: Lookup_def)

lemma Lookup_valid:
  assumes "table c k = Some it" "map_of (lru c) it = Some (Addr a)" "cells h a = Some e"
  shows "Lookup k (h, c) =
    Inr (Addr a, h\<lparr>cells := (cells h)(a \<mapsto> e\<lparr>refs := refs e + 1\<rparr>)\<rparr>,
      if at_begin (lru c) it then c
      else c\<lparr>lru := (next_node c, Addr a) # filter (\<lambda>n. fst n \<noteq> it) (lru c),
             next_node := Suc (next_node c)\<rparr>)"
proof -
  from assms(2) have "it \<in> fst ` set (lru c)"
    by (metis domI dom_map_of_conv_image_fst)
  with assms show ?thesis
    by (simp add: Lookup_def list_deref_def list_erase_def insert_front_def store.simps)
qed

lemma Lookup_stale:
  assumes "Lookup k (h, c) = Inr (p, h', c')" "table c k = Some it" "\<not> at_begin (lru c) it"
    "it \<noteq> next_node c"
  shows "Lookup k (h', c') = Inl InvalidIterator"
proof -
  from Lookup_Inr [OF assms(1)] assms(2,3) obtain a where
    c': "c' = c\<lparr>lru := (next_node c, Addr a) # filter (\<lambda>n. fst n \<noteq> it) (lru c),
                   next_node := Suc (next_node c)\<rparr>"
    by auto
  then have "table c' k = Some it" using assms(2) by simp
  moreover have "map_of (lru c') it = None"
    using c' assms(4) by (simp add: map_of_filter_fst)
  ultimately show ?thesis
    by (simp add: Lookup_def list_deref_def)
qed

text \<open>
  Claim C7, at the calls \<open>Insert(1, 10)\<close>, \<open>Insert(2, 20)\<close>, \<open>Lookup(1)\<close>,
  \<open>Lookup(1)\<close> on an empty cache of capacity 2: the first lookup moves the entry of key 1
  to the front; the second lookup of the registered key 1 reads through the iterator of
  the erased node and returns no handle.
\<close>

theorem Lookup_twice_reads_erased_node:
  "run [OpInsert (1::nat) (10::nat) 1, OpInsert 2 20 1, OpLookup 1, OpLookup 1] (init 2)
     = Inl InvalidIterator"
  by (simp add: cache_defs)

subsection \<open>Prune\<close>

text \<open>\<open>Prune\<close> never changes \<open>lru_\<close>, whatever it deletes.\<close>

lemma Prune_keeps_lru: "Prune (h, c) = Inr (h', c') \<Longrightarrow> lru c' = lru c"
  unfolding Prune_def by (simp add: prune_loop_frame(1))

text \<open>
  Claim C1, at the calls \<open>Insert(1, 10)\<close>, \<open>Release\<close> of the returned handle,
  \<open>Prune()\<close> on an empty cache of capacity 2: Prune takes key 1 out of \<open>table_\<close>
  and destroys the entry, and the pointer to the destroyed entry is still in \<open>lru_\<close>.
\<close>

theorem Prune_leaves_destroyed_entry_in_lru:
  "(case run [OpInsert (1::nat) (10::nat) 1, OpRelease (Addr 0), OpPrune] (init 2) of
      Inl err \<Rightarrow> False
    | Inr (h, c) \<Rightarrow> lru c = [(0, Addr 0)] \<and> deref h (Addr 0) = None \<and> table c 1 = None)"
  by (simp add: cache_defs)

subsection \<open>The capacity bound\<close>

lemma Lookup_returns_element:
  assumes "Lookup k (h, c) = Inr (p, s')" "p \<noteq> nullptr"
  shows "p \<in> snd ` set (lru c)"
proof -
  obtain h' c' where "s' = (h', c')" by (cases s')
  with assms(1) have "Lookup k (h, c) = Inr (p, h', c')" by simp
  from Lookup_Inr [OF this] assms(2) show ?thesis
    by (auto dest!: map_of_SomeD intro: image_eqI [where x = "(it, p)" for it])
qed

text \<open>
  Claim C3, as amended. Take any sequence of calls of \<open>Insert\<close>, \<open>Lookup\<close>,
  \<open>Release\<close>, \<open>Erase\<close> and \<open>Prune\<close>, on any arguments, on a cache that
  starts empty, and let the charges of its inserts add up to less than \<open>2\<^sup>6\<^sup>4\<close>, so
  that \<open>usage_\<close> cannot wrap. After each call of the sequence, if the calls up to it
  have run to completion, the charges of the entries in \<open>lru_\<close> (a handle that has been
  deleted counts 0) add up to at most \<open>capacity_\<close>. Every entry that \<open>Lookup\<close>
  returns is an element of \<open>lru_\<close> (\<open>Lookup_returns_element\<close>), so the bound covers
  the entries reachable by key.
\<close>

theorem capacity_bound:
  assumes "sum_list (map op_charge xs) < 2 ^ 64" and "run (take i xs) (init n) = Inr s"
  shows "registered_charge s \<le> unat (capacity (snd s))"
proof -
  have "sum_list (map op_charge xs) =
      sum_list (map op_charge (take i xs)) + sum_list (map op_charge (drop i xs))"
    by (metis append_take_drop_id map_append sum_list_append)
  with assms(1) have small: "0 + sum_list (map op_charge (take i xs)) < 2 ^ 64"
    by simp
  have "capacity_inv (0 + sum_list (map op_charge (take i xs))) s"
    using assms(2) capacity_inv_init small by (rule run_capacity_inv)
  then have ok: "lru_ok s"
    and cap: "live_charge (fst s) \<le> unat (capacity (snd s)) \<or> lru (snd s) = []"
    by (simp_all add: capacity_inv_def)
  from cap show ?thesis
  proof
    assume "live_charge (fst s) \<le> unat (capacity (snd s))"
    moreover have "registered_charge s \<le> live_charge (fst s)"
      using registered_le_live [of "fst s" "snd s"] ok by simp
    ultimately show ?thesis by simp
  next
    assume "lru (snd s) = []"
    then show ?thesis by (simp add: registered_charge_def)
  qed
qed

text \<open>
  The theorem after the third of the four calls \<open>Insert(1, 10)\<close>, \<open>Release\<close> of the
  returned handle, \<open>Insert(2, 20)\<close>, \<open>Insert(3, 30)\<close> with capacity 2: the two
  registered entries have charge 1 each.
\<close>

theorem capacity_bound_witness:
  "\<exists>s. run (take 3 [OpInsert (1::nat) (10::nat) 1, OpRelease (Addr 0), OpInsert 2 20 1,
         OpInsert 3 30 1]) (init 2) = Inr s \<and>
       registered_charge s \<le> unat (capacity (snd s)) \<and> registered_charge s = 2"
proof -
  let ?xs = "[OpInsert (1::nat) (10::nat) 1, OpRelease (Addr 0), OpInsert 2 20 1, OpInsert 3 30 1]"
  obtain s where s: "run (take 3 ?xs) (init 2) = Inr s"
    by (simp add: cache_defs)
  have "sum_list (map op_charge ?xs) < 2 ^ 64"
    by simp
  then have "registered_charge s \<le> unat (capacity (snd s))"
    using s by (rule capacity_bound)
  moreover from s have "registered_charge s = 2"
    by (auto simp: cache_defs registered_charge_def charge_at_def)
  ultimately show ?thesis
    using s by blast
qed

text \<open>
  Claim C3 as stated, for every sequence of calls, fails when \<open>usage_\<close> wraps: with
  capacity 10, after \<open>Insert(1, 10, 5)\<close> and \<open>Insert(2, 20, 18446744073709551615)\<close>
  the counter is 4, nothing is evicted, and the two registered entries have charges that
  add up to 18446744073709551620.
\<close>

theorem capacity_bound_wraps:
  "(case run [OpInsert (1::nat) (10::nat) 5, OpInsert 2 20 18446744073709551615] (init 10) of
      Inl err \<Rightarrow> False
    | Inr s \<Rightarrow> capacity (snd s) = 10 \<and> usage (snd s) = 4 \<and>
        registered_charge s = 18446744073709551620 \<and>
        unat (capacity (snd s)) < registered_charge s)"
  by (simp add: cache_defs registered_charge_def charge_at_def)

subsection \<open>The order of eviction\<close>

text \<open>
  Claim C5. The time of the last touch of an entry is the position, in the sequence of
  calls, of the latest \<open>Insert\<close> or successful \<open>Lookup\<close> that returned it
  (\<open>run_clock\<close> keeps it in \<open>T\<close>; the current call has time \<open>t\<close>). After any
  sequence of calls that runs to completion on a cache that starts empty, let
  \<open>Insert\<close> return the new entry \<open>p\<close>. If the call took the entry \<open>b\<close> out of
  \<open>lru_\<close> (\<open>b\<close> was in it before the call, or is \<open>p\<close> itself, and is not in it
  after), then every entry \<open>a\<close> that the call left in \<open>lru_\<close> was touched later than
  \<open>b\<close>. In particular \<open>p\<close>, touched last, is evicted only when nothing stays.
\<close>

theorem eviction_order:
  assumes "run_clock xs (0, (\<lambda>_. 0), init n) = Inr (t, T, (h, c))"
    and "Insert k v ch (h, c) = Inr (p, h', c')"
    and "b \<in> snd ` set (lru c) \<union> {p}" and "b \<notin> snd ` set (lru c')"
    and "a \<in> snd ` set (lru c')"
  shows "(T(p := t)) b < (T(p := t)) a \<and> b \<noteq> p"
proof -
  have rec: "by_recency t T (h, c)"
    using assms(1) by_recency_init by (rule run_clock_by_recency)
  from Insert_lru_take [OF assms(2)] obtain m where
    m: "map snd (lru c') = take m (p # map snd (lru c))" ..
  have srt: "sorted_wrt (\<lambda>x y. (T(p := t)) y < (T(p := t)) x) (p # map snd (lru c))"
    using assms(2) rec by (rule by_recency_Insert_front)
  let ?L = "p # map snd (lru c)"
  from assms(5) have "a \<in> set (map snd (lru c'))" by simp
  then have a: "a \<in> set (take m ?L)" unfolding m .
  from assms(4) have "b \<notin> set (map snd (lru c'))" by simp
  then have "b \<notin> set (take m ?L)" unfolding m .
  moreover have "b \<in> set ?L"
    using assms(3) by auto
  then have "b \<in> set (take m ?L @ drop m ?L)"
    by (simp only: append_take_drop_id)
  ultimately have b: "b \<in> set (drop m ?L)"
    by (simp only: set_append Un_iff) blast
  have "sorted_wrt (\<lambda>x y. (T(p := t)) y < (T(p := t)) x) (take m ?L @ drop m ?L)"
    using srt by (simp only: append_take_drop_id)
  then have "\<forall>x\<in>set (take m ?L). \<forall>y\<in>set (drop m ?L). (T(p := t)) y < (T(p := t)) x"
    unfolding sorted_wrt_append by blast
  with a b have less: "(T(p := t)) b < (T(p := t)) a" by blast
  have "(T(p := t)) a \<le> t"
  proof (cases "a = p")
    case True
    then show ?thesis by simp
  next
    case False
    with a have "a \<in> set (map snd (lru c))" by (auto dest: in_set_takeD)
    with rec have "T a < t" by (auto simp: by_recency_def)
    with False show ?thesis by simp
  qed
  with less have "b \<noteq> p" by auto
  with less show ?thesis ..
qed

theorem eviction_order_witness:
  "\<exists>t T h c h' c'.
     run_clock [OpInsert (1::nat) (10::nat) 1, OpRelease (Addr 0), OpInsert 2 20 1]
       (0, (\<lambda>_. 0), init 2) = Inr (t, T, (h, c)) \<and>
     Insert 3 30 1 (h, c) = Inr (Addr 2, h', c') \<and>
     Addr 0 \<in> snd ` set (lru c) \<union> {Addr 2} \<and> Addr 0 \<notin> snd ` set (lru c') \<and>
     Addr 1 \<in> snd ` set (lru c') \<and>
     (T(Addr 2 := t)) (Addr 0) < (T(Addr 2 := t)) (Addr 1) \<and> Addr 0 \<noteq> Addr 2"
proof -
  let ?xs = "[OpInsert (1::nat) (10::nat) 1, OpRelease (Addr 0), OpInsert 2 20 1]"
  obtain t T h c where rc: "run_clock ?xs (0, (\<lambda>_. 0), init 2) = Inr (t, T, (h, c))"
    by (simp add: cache_defs touch_def)
  then obtain h' c' where ins: "Insert 3 30 1 (h, c) = Inr (Addr 2, h', c')"
    by (auto simp: cache_defs touch_def)
  from rc have b: "Addr 0 \<in> snd ` set (lru c) \<union> {Addr 2}"
    by (auto simp: cache_defs touch_def)
  from rc ins have b': "Addr 0 \<notin> snd ` set (lru c')"
    by (auto simp: cache_defs touch_def)
  from rc ins have a: "Addr 1 \<in> snd ` set (lru c')"
    by (auto simp: cache_defs touch_def)
  from rc ins b b' a
  have "(T(Addr 2 := t)) (Addr 0) < (T(Addr 2 := t)) (Addr 1) \<and> Addr 0 \<noteq> Addr 2"
    by (rule eviction_order)
  with rc ins b b' a show ?thesis
    by blast
qed

subsection \<open>Pins and the usage counter\<close>

text \<open>
  Claim C4. In every state that a sequence of calls reaches from an empty cache,
  \<open>usage_\<close> is the sum (in \<open>size_t\<close>) of the charges of the handles that have not
  been deleted, before and after any further call. A handle that is live before the call
  is deleted by it only if it had a single pin left, and only as an element of \<open>lru_\<close>
  (its last pin was the cache's) or as the argument of \<open>Release\<close>; if it survives, its
  key, value and charge are the same. \<open>Release\<close> of a handle deletes it exactly when
  its pin count was 1. A handle that is no longer in \<open>lru_\<close> (evicted, erased or
  overwritten while a caller held it) is left exactly as it is by every call except
  \<open>Release\<close> of that handle.
\<close>

theorem pin_accounting:
  assumes "run xs (init n) = Inr (h, c)" and "step x (h, c) = Inr (r, h', c')"
    and "cells h a = Some e"
  shows "usage c = of_nat (live_charge h) \<and> usage c' = of_nat (live_charge h') \<and>
     (cells h' a = None \<longrightarrow>
        refs e = 1 \<and> (Addr a \<in> snd ` set (lru c) \<or> x = OpRelease (Addr a))) \<and>
     (\<forall>e'. cells h' a = Some e' \<longrightarrow> key e' = key e \<and> val e' = val e \<and> charge e' = charge e) \<and>
     (x = OpRelease (Addr a) \<longrightarrow> (cells h' a = None \<longleftrightarrow> refs e = 1)) \<and>
     (Addr a \<notin> snd ` set (lru c) \<and> x \<noteq> OpRelease (Addr a) \<longrightarrow> cells h' a = Some e)"
proof -
  from run_acct_lru_ok [OF assms(1) init_acct init_lru_ok]
  have ac: "acct (h, c)" and ok: "lru_ok (h, c)" by simp_all
  have ac': "acct (h', c')" using assms(2) ac by (rule acct_step)
  from ac have hp: "heap_ok h" by (simp add: acct_def)
  note cell = step_cell [OF assms(2) ok hp assms(3)]
  have 1: "usage c = of_nat (live_charge h)" using ac by (simp add: acct_def)
  have 2: "usage c' = of_nat (live_charge h')" using ac' by (simp add: acct_def)
  have 3: "cells h' a = None \<longrightarrow>
        refs e = 1 \<and> (Addr a \<in> snd ` set (lru c) \<or> x = OpRelease (Addr a))"
    using cell by (auto split: if_splits)
  have 4: "\<forall>e'. cells h' a = Some e' \<longrightarrow> key e' = key e \<and> val e' = val e \<and> charge e' = charge e"
    using cell by (auto split: if_splits)
  have 5: "x = OpRelease (Addr a) \<longrightarrow> (cells h' a = None \<longleftrightarrow> refs e = 1)"
  proof
    assume x: "x = OpRelease (Addr a)"
    with assms(2) have "Release (Addr a) (h, c) = Inr (h', c')" by (simp del: Release.simps)
    from Release_Inr [OF this] assms(3) show "cells h' a = None \<longleftrightarrow> refs e = 1"
      by (auto split: if_splits)
  qed
  have 6: "Addr a \<notin> snd ` set (lru c) \<and> x \<noteq> OpRelease (Addr a) \<longrightarrow> cells h' a = Some e"
    using cell by auto
  from 1 2 3 4 5 6 show ?thesis by blast
qed

theorem pin_accounting_witness:
  "\<exists>h c e. run [OpInsert (1::nat) (10::nat) 1, OpInsert 2 20 1, OpInsert 3 30 1] (init 2) = Inr (h, c) \<and>
     cells h 0 = Some e \<and> refs e = 1 \<and> Addr 0 \<notin> snd ` set (lru c) \<and> usage c = 3 \<and>
     (\<exists>r h' c'. step (OpInsert 4 40 1) (h, c) = Inr (r, h', c') \<and> cells h' 0 = Some e \<and> usage c' = 4) \<and>
     (\<exists>r h' c'. step (OpRelease (Addr 0)) (h, c) = Inr (r, h', c') \<and> cells h' 0 = None \<and> usage c' = 2)"
proof -
  let ?xs = "[OpInsert (1::nat) (10::nat) 1, OpInsert 2 20 1, OpInsert 3 30 1]"
  obtain h c where run: "run ?xs (init 2) = Inr (h, c)"
    by (simp add: cache_defs)
  then obtain e where e: "cells h 0 = Some e" and refs: "refs e = 1"
    by (auto simp: cache_defs)
  from run have unreg: "Addr 0 \<notin> snd ` set (lru c)" and us: "usage c = 3"
    by (auto simp: cache_defs)
  from run obtain r1 h1 c1 where
    s1: "step (OpInsert 4 40 1) (h, c) = Inr (r1, h1, c1)" and u1: "usage c1 = 4"
    by (auto simp: cache_defs)
  from run obtain r2 h2 c2 where
    s2: "step (OpRelease (Addr 0)) (h, c) = Inr (r2, h2, c2)" and u2: "usage c2 = 2"
    by (auto simp: cache_defs)
  from pin_accounting [OF run s1 e] unreg have "cells h1 0 = Some e"
    by simp
  moreover from pin_accounting [OF run s2 e] refs have "cells h2 0 = None"
    by simp
  ultimately show ?thesis
    using run e refs unreg us s1 u1 s2 u2 by blast
qed

subsection \<open>The scenario with capacity 2\<close>

text \<open>
  Claim C9, as amended. On a cache of capacity 2 that starts empty, with charges 1:
  after \<open>Insert(1)\<close> and \<open>Insert(2)\<close>, \<open>usage_\<close> is 2 and both keys are
  found. If the handle that \<open>Insert(1)\<close> returned is then released, \<open>Insert(3)\<close>
  evicts and destroys the entry of key 1 and leaves \<open>usage_\<close> at 2: key 1 is not
  found, keys 2 and 3 are.
\<close>

theorem scenario_with_release:
  "(case run [OpInsert (1::nat) (10::nat) 1, OpInsert 2 20 1] (init 2) of
      Inl err \<Rightarrow> False
    | Inr s \<Rightarrow> usage (snd s) = 2 \<and> found 1 s \<and> found 2 s \<and>
        (case run [OpRelease (Addr 0), OpInsert 3 30 1] s of
           Inl err \<Rightarrow> False
         | Inr s' \<Rightarrow> usage (snd s') = 2 \<and> Lookup 1 s' = Inr (nullptr, s') \<and>
             found 2 s' \<and> found 3 s' \<and> deref (fst s') (Addr 0) = None))"
  by (simp add: cache_defs found_def)

text \<open>
  Claim C9 as stated, with the three inserts and no release: the entry of key 1 is still
  pinned by its caller, so evicting it does not lower \<open>usage_\<close>, and the loop goes on
  to unregister keys 2 and 3 as well. \<open>usage_\<close> stays 3 and no key is found.
\<close>

theorem scenario_without_release:
  "(case run [OpInsert (1::nat) (10::nat) 1, OpInsert 2 20 1, OpInsert 3 30 1] (init 2) of
      Inl err \<Rightarrow> False
    | Inr s \<Rightarrow> usage (snd s) = 3 \<and> \<not> found 1 s \<and> \<not> found 2 s \<and> \<not> found 3 s)"
  by (simp add: cache_defs found_def)

subsection \<open>SharedLRUCache\<close>

lemma kNumShards_16: "kNumShards = 16"
  by (simp add: kNumShards_def kNumShardBits_def)

lemma Shard_mod: "Shard hash = unat hash mod 16"
  by (simp add: Shard_def kNumShards_16 unat_mod)

lemma ceil_div_16: "nat \<lceil>real m / 16\<rceil> = (m + 15) div 16"
proof -
  have "\<lceil>real m / 16\<rceil> = \<lceil>real_of_int (int m) / real_of_int 16\<rceil>" by simp
  also have "\<dots> = - (- int m div 16)"
    by (simp only: ceiling_divide_eq_div)
  also have "\<dots> = int ((m + 15) div 16)"
    by (simp add: zdiv_int)
  finally show ?thesis by simp
qed

lemma per_capacity_ceil:
  assumes "unat n + 15 < 2 ^ 64"
  shows "unat (per_capacity n) = nat \<lceil>real (unat n) / 16\<rceil>"
proof -
  have "unat (n + 15) = unat n + 15"
    using assms by (simp add: unat_add_lem [THEN iffD1])
  then have "unat ((n + 15) div 16) = (unat n + 15) div 16"
    by (simp add: unat_div)
  moreover have "per_capacity n = (n + 15) div 16"
    by (simp add: per_capacity_def kNumShards_16 add.commute)
  ultimately have "unat (per_capacity n) = (unat n + 15) div 16"
    by simp
  then show ?thesis
    by (simp only: ceil_div_16)
qed

text \<open>
  Claim C6, as amended. For a total capacity \<open>n\<close> with \<open>n + 15 < 2\<^sup>6\<^sup>4\<close>, the
  constructor gives each of the 16 shards the capacity \<open>\<lceil>n / 16\<rceil>\<close>. \<open>Shard(hash)\<close>
  is \<open>hash mod 16\<close>. \<open>Insert\<close>, \<open>LookUp\<close> and \<open>Erase\<close> on a key are the
  call on the shard with index \<open>HashSlice(key) mod 16\<close>, on the shared heap, and change
  no other shard. \<open>Release\<close> of a live handle is the call on the shard selected by the
  key stored in the handle; \<open>Release\<close> of a null or dangling handle fails when that key
  is read.
\<close>

theorem shard_routing:
  "(unat n + 15 < 2 ^ 64 \<longrightarrow>
      map capacity (SharedLRUCache_new n :: 'k LRUCache list)
        = replicate 16 (per_capacity n) \<and>
      unat (per_capacity n) = nat \<lceil>real (unat n) / 16\<rceil>) \<and>
   Shard hash = unat hash mod 16 \<and> Shard hash < 16 \<and>
   SharedLRUCache_Insert H k v ch (h, shard) =
     map_sum id (\<lambda>(p, h', c'). (p, h', shard[unat (H k) mod 16 := c']))
       (Insert k v ch (h, shard ! (unat (H k) mod 16))) \<and>
   SharedLRUCache_LookUp H k (h, shard) =
     map_sum id (\<lambda>(p, h', c'). (p, h', shard[unat (H k) mod 16 := c']))
       (Lookup k (h, shard ! (unat (H k) mod 16))) \<and>
   SharedLRUCache_Erase H k (h, shard) =
     map_sum id (\<lambda>(h', c'). (h', shard[unat (H k) mod 16 := c']))
       (Erase k (h, shard ! (unat (H k) mod 16))) \<and>
   (deref h p = None \<longrightarrow> SharedLRUCache_Release H p (h, shard) = Inl InvalidHandle) \<and>
   (\<forall>e. deref h p = Some e \<longrightarrow>
      SharedLRUCache_Release H p (h, shard) =
        map_sum id (\<lambda>(h', c'). (h', shard[unat (H (key e)) mod 16 := c']))
          (Release p (h, shard ! (unat (H (key e)) mod 16))))"
proof (intro conjI impI allI)
  show "map capacity (SharedLRUCache_new n :: 'k LRUCache list) = replicate 16 (per_capacity n)"
    by (simp add: SharedLRUCache_new_def kNumShards_16 set_capacity_def LRUCache_new_def)
  show "unat (per_capacity n) = nat \<lceil>real (unat n) / 16\<rceil>" if "unat n + 15 < 2 ^ 64"
    using that by (rule per_capacity_ceil)
  show "Shard hash = unat hash mod 16" by (rule Shard_mod)
  show "Shard hash < 16" by (simp add: Shard_mod)
  show "SharedLRUCache_Insert H k v ch (h, shard) =
     map_sum id (\<lambda>(p, h', c'). (p, h', shard[unat (H k) mod 16 := c']))
       (Insert k v ch (h, shard ! (unat (H k) mod 16)))"
    by (simp add: SharedLRUCache_Insert_def Shard_mod Let_def split: sum.splits)
  show "SharedLRUCache_LookUp H k (h, shard) =
     map_sum id (\<lambda>(p, h', c'). (p, h', shard[unat (H k) mod 16 := c']))
       (Lookup k (h, shard ! (unat (H k) mod 16)))"
    by (simp add: SharedLRUCache_LookUp_def Shard_mod Let_def split: sum.splits)
  show "SharedLRUCache_Erase H k (h, shard) =
     map_sum id (\<lambda>(h', c'). (h', shard[unat (H k) mod 16 := c']))
       (Erase k (h, shard ! (unat (H k) mod 16)))"
    by (simp add: SharedLRUCache_Erase_def Shard_mod Let_def split: sum.splits)
  show "SharedLRUCache_Release H p (h, shard) = Inl InvalidHandle" if "deref h p = None"
    using that by (simp add: SharedLRUCache_Release_def)
  show "SharedLRUCache_Release H p (h, shard) =
        map_sum id (\<lambda>(h', c'). (h', shard[unat (H (key e)) mod 16 := c']))
          (Release p (h, shard ! (unat (H (key e)) mod 16)))" if "deref h p = Some e" for e
    using that by (simp add: SharedLRUCache_Release_def Shard_mod Let_def del: Release.simps split: sum.splits)
qed

theorem shard_routing_witness:
  "unat (100 :: size_t) + 15 < 2 ^ 64 \<and>
   map capacity (SharedLRUCache_new 100 :: nat LRUCache list) = replicate 16 7 \<and>
   nat \<lceil>real (unat (100 :: size_t)) / 16\<rceil> = 7 \<and>
   Shard 35 = 3 \<and>
   SharedLRUCache_Insert (\<lambda>k. of_nat k) (35 :: nat) (7 :: nat) 1
       (empty_heap, SharedLRUCache_new 100) =
     Inr (Addr 0,
       \<lparr>cells = (\<lambda>_. None)(0 \<mapsto> \<lparr>key = 35, val = 7, refs = 2, charge = 1\<rparr>), next_addr = 1\<rparr>,
       (SharedLRUCache_new 100)
         [3 := \<lparr>usage = 1, capacity = 7, lru = [(0, Addr 0)], table = (\<lambda>_. None)(35 \<mapsto> 0),
                next_node = 1\<rparr>]) \<and>
   SharedLRUCache_Release (\<lambda>k. of_nat k) (Addr 0)
       (\<lparr>cells = (\<lambda>_. None)(0 \<mapsto> \<lparr>key = (35 :: nat), val = (7 :: nat), refs = 2, charge = 1\<rparr>),
          next_addr = 1\<rparr>,
        (SharedLRUCache_new 100)
         [3 := \<lparr>usage = 1, capacity = 7, lru = [(0, Addr 0)], table = (\<lambda>_. None)(35 \<mapsto> 0),
                next_node = 1\<rparr>]) =
     Inr (\<lparr>cells = (\<lambda>_. None)(0 \<mapsto> \<lparr>key = 35, val = 7, refs = 1, charge = 1\<rparr>), next_addr = 1\<rparr>,
        (SharedLRUCache_new 100)
         [3 := \<lparr>usage = 1, capacity = 7, lru = [(0, Addr 0)], table = (\<lambda>_. None)(35 \<mapsto> 0),
                next_node = 1\<rparr>])"
proof -
  let ?H = "\<lambda>k :: nat. of_nat k :: size_t"
  let ?sh = "SharedLRUCache_new 100 :: nat LRUCache list"
  let ?e = "\<lparr>key = (35 :: nat), val = (7 :: nat), refs = 2, charge = 1\<rparr>"
  let ?h1 = "\<lparr>cells = (\<lambda>_. None)(0 \<mapsto> ?e), next_addr = 1\<rparr>"
  let ?c1 = "\<lparr>usage = 1, capacity = 7, lru = [(0, Addr 0)], table = (\<lambda>_. None)((35 :: nat) \<mapsto> 0),
                next_node = 1\<rparr>"
  note r1 = shard_routing [of 100 35 ?H 35 7 1 empty_heap ?sh]
  note r2 = shard_routing [of 100 35 ?H 35 7 1 ?h1 "?sh[3 := ?c1]" "Addr 0"]
  have small: "unat (100 :: size_t) + 15 < 2 ^ 64" by simp
  have pc: "per_capacity 100 = 7"
    by (simp add: per_capacity_def kNumShards_16)
  have len: "length ?sh = 16"
    by (simp add: SharedLRUCache_new_def kNumShards_16)
  have third: "?sh ! 3 = \<lparr>usage = 0, capacity = 7, lru = [], table = (\<lambda>_. None), next_node = 0\<rparr>"
    by (simp add: SharedLRUCache_new_def kNumShards_16 pc set_capacity_def LRUCache_new_def)
  from r1 small have cap: "map capacity ?sh = replicate 16 (per_capacity 100)"
    and ceil: "unat (per_capacity 100) = nat \<lceil>real (unat (100 :: size_t)) / 16\<rceil>"
    and sh: "Shard 35 = unat (35 :: size_t) mod 16"
    by blast+
  from r1 have "SharedLRUCache_Insert ?H 35 7 1 (empty_heap, ?sh) =
     map_sum id (\<lambda>(p, h', c'). (p, h', ?sh[unat (?H 35) mod 16 := c']))
       (Insert 35 7 1 (empty_heap, ?sh ! (unat (?H 35) mod 16)))"
    by blast
  also have "unat (?H 35) mod 16 = 3" by simp
  also have "Insert 35 7 1 (empty_heap, ?sh ! 3) = Inr (Addr 0, ?h1, ?c1)"
    unfolding third by (simp add: cache_defs)
  finally have ins: "SharedLRUCache_Insert ?H 35 7 1 (empty_heap, ?sh) = Inr (Addr 0, ?h1, ?sh[3 := ?c1])"
    by simp
  let ?h2 = "\<lparr>cells = (\<lambda>_. None)(0 \<mapsto> \<lparr>key = (35 :: nat), val = (7 :: nat), refs = 1, charge = 1\<rparr>),
                next_addr = 1\<rparr>"
  have "deref ?h1 (Addr 0) = Some ?e" by simp
  with r2 have rel0: "SharedLRUCache_Release ?H (Addr 0) (?h1, ?sh[3 := ?c1]) =
        map_sum id (\<lambda>(h', c'). (h', ?sh[3 := ?c1, unat (?H (key ?e)) mod 16 := c']))
          (Release (Addr 0) (?h1, ?sh[3 := ?c1] ! (unat (?H (key ?e)) mod 16)))"
    by blast
  have idx: "unat (?H (key ?e)) mod 16 = 3" by simp
  have nth: "?sh[3 := ?c1] ! 3 = ?c1" using len by simp
  have R: "Release (Addr 0) (?h1, ?c1) = Inr (?h2, ?c1)"
    by (simp add: store.simps)
  have upd: "?sh[3 := ?c1, 3 := ?c1] = ?sh[3 := ?c1]" by simp
  have rel: "SharedLRUCache_Release ?H (Addr 0) (?h1, ?sh[3 := ?c1]) = Inr (?h2, ?sh[3 := ?c1])"
    by (simp only: rel0 idx nth R map_sum.simps id_apply prod.case upd)
  from cap pc have c2: "map capacity ?sh = replicate 16 7" by simp
  from ceil pc have c3: "nat \<lceil>real (unat (100 :: size_t)) / 16\<rceil> = 7" by simp
  from sh have c4: "Shard 35 = 3" by simp
  show ?thesis
    by (rule conjI [OF small conjI [OF c2 conjI [OF c3 conjI [OF c4 conjI [OF ins rel]]]]])
qed

text \<open>
  Claim C6 as stated, for every total capacity: \<open>capacity + kNumShards - 1\<close> wraps for
  the 15 largest values of \<open>size_t\<close>. For \<open>2\<^sup>6\<^sup>4 - 1\<close> every shard gets the
  capacity 0, where \<open>\<lceil>n / 16\<rceil>\<close> is \<open>2\<^sup>6\<^sup>0\<close>.
\<close>

theorem per_capacity_wraps:
  "map capacity (SharedLRUCache_new 18446744073709551615 :: nat LRUCache list) = replicate 16 0 \<and>
   nat \<lceil>real (unat (18446744073709551615 :: size_t)) / 16\<rceil> = 1152921504606846976 \<and>
   unat (per_capacity 18446744073709551615) \<noteq>
     nat \<lceil>real (unat (18446744073709551615 :: size_t)) / 16\<rceil>"
  by (simp add: SharedLRUCache_new_def kNumShards_16 set_capacity_def LRUCache_new_def
      per_capacity_def ceil_div_16)

subsection \<open>An insert larger than the capacity\<close>

lemma evict_empty: "lru c = [] \<Longrightarrow> evict (h, c) = Inr (h, c)"
  by (simp add: evict.simps)

lemma evict_step:
  assumes "capacity c < usage c" "lru c = l @ [(n, Addr a)]" "cells h a = Some e"
  shows "evict (h, c) =
    (case Release (Addr a) (h, c\<lparr>table := (table c)(key e := None), lru := l\<rparr>) of
       Inl err \<Rightarrow> Inl err | Inr s \<Rightarrow> evict s)"
  using assms by (subst evict.simps) simp

lemma sum_list_charge_at_cong:
  "(\<And>p. p \<in> set ps \<Longrightarrow> charge_at h' p = charge_at h p) \<Longrightarrow>
    sum_list (map (charge_at h') ps) = sum_list (map (charge_at h) ps)"
  by (induction ps) auto

lemma evict_all:
  fixes h :: "('k, 'v) heap"
  assumes "lru c = (n0, Addr an) # old"
    and "distinct (Addr an # map snd old)"
    and "cells h an = Some enew" "refs enew = 2" "charge enew = ch"
    and "\<forall>p\<in>set (map snd old). \<exists>a e. p = Addr a \<and> cells h a = Some e \<and> refs e = 1"
    and "unat (usage c) = unat ch + sum_list (map (charge_at h) (map snd old))"
    and "capacity c < ch"
  shows "\<exists>h' c'. evict (h, c) = Inr (h', c') \<and> lru c' = [] \<and> usage c' = ch \<and>
    cells h' an = Some (enew\<lparr>refs := 1\<rparr>) \<and>
    (\<forall>k'. table c' k' \<noteq> None \<longrightarrow> table c k' \<noteq> None \<and> k' \<noteq> key enew \<and>
       (\<forall>p\<in>set (map snd old). \<forall>e. deref h p = Some e \<longrightarrow> k' \<noteq> key e))"
  using assms
proof (induction old arbitrary: h c rule: rev_induct)
  case Nil
  from Nil.prems(7) have "unat (usage c) = unat ch" by simp
  then have us: "usage c = ch" by (rule unsigned_word_eqI)
  let ?h1 = "h\<lparr>cells := (cells h)(an \<mapsto> enew\<lparr>refs := 1\<rparr>)\<rparr>"
  let ?c1 = "c\<lparr>table := (table c)(key enew := None), lru := []\<rparr>"
  have "Release (Addr an) (h, c\<lparr>table := (table c)(key enew := None), lru := []\<rparr>) = Inr (?h1, ?c1)"
    using Nil.prems(3,4) by (simp add: store.simps)
  moreover have "capacity c < usage c" using us Nil.prems(8) by simp
  ultimately have "evict (h, c) = evict (?h1, ?c1)"
    using evict_step [of c "[]" n0 an h enew] Nil.prems(1,3) by (simp del: Release.simps)
  also have "\<dots> = Inr (?h1, ?c1)" by (rule evict_empty) simp
  finally show ?case using us by simp
next
  case (snoc x old)
  obtain n p where x: "x = (n, p)" by (cases x)
  from snoc.prems(6) x obtain a e where p: "p = Addr a" and e: "cells h a = Some e"
    and re: "refs e = 1"
    by auto
  from snoc.prems(2) x p have ne: "a \<noteq> an" and notin: "Addr a \<notin> set (map snd old)"
    and d: "distinct (Addr an # map snd old)"
    by auto
  have ce: "charge_at h (Addr a) = unat (charge e)" using e by (simp add: charge_at_def)
  from snoc.prems(7) x p ce
  have us: "unat (usage c) = unat ch + sum_list (map (charge_at h) (map snd old)) + unat (charge e)"
    by simp
  then have "unat ch \<le> unat (usage c)" by simp
  with snoc.prems(8) have lt: "capacity c < usage c"
    by (simp add: word_less_nat_alt word_le_nat_alt)
  let ?h1 = "h\<lparr>cells := (cells h)(a := None)\<rparr>"
  let ?c1 = "c\<lparr>table := (table c)(key e := None), lru := (n0, Addr an) # old,
               usage := usage c - charge e\<rparr>"
  have rel: "Release (Addr a) (h, c\<lparr>table := (table c)(key e := None), lru := (n0, Addr an) # old\<rparr>)
      = Inr (?h1, ?c1)"
    using e re by (simp add: delete.simps)
  have l: "lru c = ((n0, Addr an) # old) @ [(n, Addr a)]"
    using snoc.prems(1) x p by simp
  have ev: "evict (h, c) = evict (?h1, ?c1)"
    using evict_step [OF lt l e] rel by (simp del: Release.simps)
  have same: "charge_at ?h1 q = charge_at h q" if "q \<in> set (map snd old)" for q
  proof -
    from that notin have "q \<noteq> Addr a" by blast
    then show ?thesis by (rule charge_at_upd_other)
  qed
  have le: "charge e \<le> usage c"
    using us by (simp add: word_le_nat_alt)
  have us1: "unat (usage ?c1) = unat ch + sum_list (map (charge_at ?h1) (map snd old))"
    using us le sum_list_charge_at_cong [of "map snd old" ?h1 h, OF same]
    by (simp add: unat_sub)
  have live1: "\<forall>p\<in>set (map snd old). \<exists>a' e'. p = Addr a' \<and> cells ?h1 a' = Some e' \<and> refs e' = 1"
  proof
    fix q assume q: "q \<in> set (map snd old)"
    with snoc.prems(6) obtain a' e' where "q = Addr a'" "cells h a' = Some e'" "refs e' = 1"
      by auto
    moreover with q notin have "a' \<noteq> a" by blast
    ultimately show "\<exists>a' e'. q = Addr a' \<and> cells ?h1 a' = Some e' \<and> refs e' = 1"
      by simp
  qed
  have "\<exists>h' c'. evict (?h1, ?c1) = Inr (h', c') \<and> lru c' = [] \<and> usage c' = ch \<and>
    cells h' an = Some (enew\<lparr>refs := 1\<rparr>) \<and>
    (\<forall>k'. table c' k' \<noteq> None \<longrightarrow> table ?c1 k' \<noteq> None \<and> k' \<noteq> key enew \<and>
       (\<forall>p\<in>set (map snd old). \<forall>e. deref ?h1 p = Some e \<longrightarrow> k' \<noteq> key e))"
  proof (rule snoc.IH)
    show "lru ?c1 = (n0, Addr an) # old" by simp
    show "distinct (Addr an # map snd old)" by (rule d)
    show "cells ?h1 an = Some enew" using snoc.prems(3) ne by simp
    show "refs enew = 2" by (rule snoc.prems(4))
    show "charge enew = ch" by (rule snoc.prems(5))
    show "\<forall>p\<in>set (map snd old). \<exists>a e. p = Addr a \<and> cells ?h1 a = Some e \<and> refs e = 1"
      by (rule live1)
    show "unat (usage ?c1) = unat ch + sum_list (map (charge_at ?h1) (map snd old))"
      by (rule us1)
    show "capacity ?c1 < ch" using snoc.prems(8) by simp
  qed
  then obtain h' c' where res: "evict (?h1, ?c1) = Inr (h', c')" "lru c' = []" "usage c' = ch"
    "cells h' an = Some (enew\<lparr>refs := 1\<rparr>)"
    and tab: "\<forall>k'. table c' k' \<noteq> None \<longrightarrow> table ?c1 k' \<noteq> None \<and> k' \<noteq> key enew \<and>
       (\<forall>p\<in>set (map snd old). \<forall>e. deref ?h1 p = Some e \<longrightarrow> k' \<noteq> key e)"
    by blast
  have "\<forall>k'. table c' k' \<noteq> None \<longrightarrow> table c k' \<noteq> None \<and> k' \<noteq> key enew \<and>
       (\<forall>p\<in>set (map snd (old @ [x])). \<forall>e. deref h p = Some e \<longrightarrow> k' \<noteq> key e)"
  proof (intro allI impI)
    fix k' assume "table c' k' \<noteq> None"
    with tab have t1: "table ?c1 k' \<noteq> None" and kn: "k' \<noteq> key enew"
      and old: "\<forall>p\<in>set (map snd old). \<forall>e. deref ?h1 p = Some e \<longrightarrow> k' \<noteq> key e"
      by blast+
    from t1 have tc: "table c k' \<noteq> None" and ke: "k' \<noteq> key e"
      by (auto split: if_splits)
    have "\<forall>q\<in>set (map snd (old @ [x])). \<forall>e'. deref h q = Some e' \<longrightarrow> k' \<noteq> key e'"
    proof (intro ballI allI impI)
      fix q e' assume q: "q \<in> set (map snd (old @ [x]))" and de: "deref h q = Some e'"
      show "k' \<noteq> key e'"
      proof (cases "q = Addr a")
        case True
        with de e ke show ?thesis by simp
      next
        case False
        with q x p have qo: "q \<in> set (map snd old)" by simp
        from False de have "deref ?h1 q = Some e'" by (cases q) auto
        with old qo show ?thesis by blast
      qed
    qed
    with tc kn show "table c k' \<noteq> None \<and> k' \<noteq> key enew \<and>
       (\<forall>p\<in>set (map snd (old @ [x])). \<forall>e. deref h p = Some e \<longrightarrow> k' \<noteq> key e)"
      by blast
  qed
  with ev res show ?case by simp
qed

lemma unpinnedD:
  assumes "unpinned (h, c)" "p \<in> set (map snd (lru c))"
  shows "\<exists>a e. p = Addr a \<and> cells h a = Some e \<and> refs e = 1"
proof -
  from assms(1) have "list_all (\<lambda>p. case deref h p of None \<Rightarrow> False | Some e \<Rightarrow> refs e = 1)
    (map snd (lru c))"
    unfolding unpinned_def by (simp only: fst_conv snd_conv)
  with assms(2) have "case deref h p of None \<Rightarrow> False | Some e \<Rightarrow> refs e = 1"
    unfolding list_all_iff by blast
  then show ?thesis
    by (cases p) (auto split: option.splits)
qed

lemma registered_keys_iff:
  "k' \<in> set (registered_keys (h, c)) \<longleftrightarrow>
    (\<exists>p\<in>set (map snd (lru c)). \<exists>e. deref h p = Some e \<and> key e = k')"
proof -
  have one: "k' \<in> set (case deref h p of None \<Rightarrow> [] | Some e \<Rightarrow> [key e]) \<longleftrightarrow>
      (\<exists>e. deref h p = Some e \<and> key e = k')" for p
    by (cases "deref h p") auto
  have "k' \<in> set (registered_keys (h, c)) \<longleftrightarrow>
      (\<exists>p\<in>set (map snd (lru c)).
         k' \<in> set (case deref h p of None \<Rightarrow> [] | Some e \<Rightarrow> [key e]))"
    unfolding registered_keys_def set_concat by (simp only: fst_conv snd_conv set_map) blast
  then show ?thesis
    unfolding one .
qed

text \<open>
  \<open>Insert\<close> with a charge above the capacity, in a state where the elements of
  \<open>lru_\<close> are distinct and every key of \<open>table_\<close> is the key of one of them.
\<close>

lemma Insert_evicts_all:
  fixes h :: "('k, 'v) heap"
  assumes ok: "lru_ok (h, c)"
    and unp: "unpinned (h, c)"
    and keys: "\<forall>k'. table c k' \<noteq> None \<longrightarrow> k' \<in> set (registered_keys (h, c))"
    and fresh: "table c k = None"
    and nowrap: "registered_charge (h, c) + unat ch < 2 ^ 64"
    and big: "capacity c < ch"
  shows "\<exists>h' c'. Insert k v ch (h, c) = Inr (Addr (next_addr h), h', c') \<and> lru c' = [] \<and>
     (\<forall>k'. Lookup k' (h', c') = Inr (nullptr, h', c')) \<and>
     cells h' (next_addr h) = Some \<lparr>key = k, val = v, refs = 1, charge = ch\<rparr> \<and>
     usage c' = ch \<and>
     (\<exists>h'' c''. Release (Addr (next_addr h)) (h', c') = Inr (h'', c'') \<and>
        cells h'' (next_addr h) = None \<and> usage c'' = 0)"
proof -
  let ?an = "next_addr h"
  let ?enew = "\<lparr>key = k, val = v, refs = 2, charge = ch\<rparr>"
  let ?h1 = "h\<lparr>cells := (cells h)(?an \<mapsto> ?enew), next_addr := Suc ?an\<rparr>"
  let ?c1 = "c\<lparr>lru := (next_node c, Addr ?an) # lru c, next_node := Suc (next_node c),
             table := (table c)(k \<mapsto> next_node c), usage := usage c + ch\<rparr>"
  let ?old = "map snd (lru c)"
  have ins: "Insert k v ch (h, c) =
      (case evict (?h1, ?c1) of Inl err \<Rightarrow> Inl err | Inr s' \<Rightarrow> Inr (Addr ?an, s'))"
    using fresh by (simp add: Insert_def new_handle_def insert_front_def)
  have below: "\<exists>a e. p = Addr a \<and> a < ?an \<and> cells h a = Some e \<and> refs e = 1"
    if "p \<in> set ?old" for p
  proof -
    from unp that obtain a e where "p = Addr a" "cells h a = Some e" "refs e = 1"
      using unpinnedD by blast
    moreover from ok that have "\<exists>b<?an. p = Addr b"
      by (auto simp: lru_ok_def)
    ultimately show ?thesis by auto
  qed
  have notin: "Addr ?an \<notin> set ?old"
    using below by fastforce
  have d: "distinct (Addr ?an # ?old)"
    using ok notin by (simp add: lru_ok_def)
  have live1: "\<forall>p\<in>set ?old. \<exists>a e. p = Addr a \<and> cells ?h1 a = Some e \<and> refs e = 1"
  proof
    fix p assume "p \<in> set ?old"
    from below [OF this] obtain a e where "p = Addr a" "a < ?an" "cells h a = Some e" "refs e = 1"
      by blast
    then show "\<exists>a e. p = Addr a \<and> cells ?h1 a = Some e \<and> refs e = 1"
      by simp
  qed
  have same: "charge_at ?h1 p = charge_at h p" if "p \<in> set ?old" for p
  proof -
    from below [OF that] obtain a where "p = Addr a" "a < ?an" by blast
    then show ?thesis by (simp add: charge_at_def)
  qed
  have reg: "unat (usage c) = sum_list (map (charge_at h) ?old)"
    using unp by (simp add: unpinned_def registered_charge_def)
  with nowrap have "unat (usage c) + unat ch < 2 ^ 64"
    by (simp add: registered_charge_def)
  then have "unat (usage c + ch) = unat (usage c) + unat ch"
    by (simp add: unat_add_lem [THEN iffD1])
  with reg sum_list_charge_at_cong [of ?old ?h1 h, OF same]
  have us1: "unat (usage ?c1) = unat ch + sum_list (map (charge_at ?h1) ?old)"
    by simp
  have "\<exists>h' c'. evict (?h1, ?c1) = Inr (h', c') \<and> lru c' = [] \<and> usage c' = ch \<and>
    cells h' ?an = Some (?enew\<lparr>refs := 1\<rparr>) \<and>
    (\<forall>k'. table c' k' \<noteq> None \<longrightarrow> table ?c1 k' \<noteq> None \<and> k' \<noteq> key ?enew \<and>
       (\<forall>p\<in>set ?old. \<forall>e. deref ?h1 p = Some e \<longrightarrow> k' \<noteq> key e))"
  proof (rule evict_all)
    show "lru ?c1 = (next_node c, Addr ?an) # lru c" by simp
    show "distinct (Addr ?an # ?old)" by (rule d)
    show "cells ?h1 ?an = Some ?enew" by simp
    show "refs ?enew = 2" by simp
    show "charge ?enew = ch" by simp
    show "\<forall>p\<in>set ?old. \<exists>a e. p = Addr a \<and> cells ?h1 a = Some e \<and> refs e = 1"
      by (rule live1)
    show "unat (usage ?c1) = unat ch + sum_list (map (charge_at ?h1) ?old)" by (rule us1)
    show "capacity ?c1 < ch" using big by simp
  qed
  then obtain h' c' where ev: "evict (?h1, ?c1) = Inr (h', c')" and empty: "lru c' = []"
    and us: "usage c' = ch" and cell: "cells h' ?an = Some (?enew\<lparr>refs := 1\<rparr>)"
    and tab: "\<forall>k'. table c' k' \<noteq> None \<longrightarrow> table ?c1 k' \<noteq> None \<and> k' \<noteq> key ?enew \<and>
       (\<forall>p\<in>set ?old. \<forall>e. deref ?h1 p = Some e \<longrightarrow> k' \<noteq> key e)"
    by blast
  have none: "table c' k' = None" for k'
  proof (rule ccontr)
    assume "table c' k' \<noteq> None"
    with tab have t1: "table ?c1 k' \<noteq> None" and nk: "k' \<noteq> k"
      and old: "\<forall>p\<in>set ?old. \<forall>e. deref ?h1 p = Some e \<longrightarrow> k' \<noteq> key e"
      by auto
    from t1 nk have "table c k' \<noteq> None" by simp
    with keys have "k' \<in> set (registered_keys (h, c))" by blast
    then obtain p e where p: "p \<in> set ?old" and e: "deref h p = Some e" "key e = k'"
      unfolding registered_keys_iff by blast
    from below [OF p] obtain a where "p = Addr a" "a < ?an" by blast
    with e have "deref ?h1 p = Some e" by simp
    with old p e(2) show False by blast
  qed
  have "Insert k v ch (h, c) = Inr (Addr ?an, h', c')"
    using ins ev by simp
  moreover have "\<forall>k'. Lookup k' (h', c') = Inr (nullptr, h', c')"
    using none by (simp add: Lookup_def)
  moreover have "cells h' ?an = Some \<lparr>key = k, val = v, refs = 1, charge = ch\<rparr>"
    using cell by simp
  moreover have "\<exists>h'' c''. Release (Addr ?an) (h', c') = Inr (h'', c'') \<and>
        cells h'' ?an = None \<and> usage c'' = 0"
    using cell us by (simp add: delete.simps)
  ultimately show ?thesis
    using empty us by blast
qed

text \<open>
  In a cache reached from the empty one whose elements of \<open>lru_\<close> are all live, every
  key of \<open>table_\<close> is the key of an element of \<open>lru_\<close>.
\<close>

lemma reachable_table_keys:
  assumes run: "run xs (init n) = Inr (h, c)" and unp: "unpinned (h, c)"
    and t: "table c k' \<noteq> None"
  shows "k' \<in> set (registered_keys (h, c))"
proof -
  from run_keyed [OF run init_keyed init_lru_ok] obtain K where k: "keyed K (h, c)" ..
  from t obtain it where "table c k' = Some it" by auto
  from keyedD(5) [OF k this] obtain n a where na: "(n, Addr a) \<in> set (lru c)" "K a = k'"
    by blast
  then have p: "Addr a \<in> set (map snd (lru c))" by force
  from unpinnedD [OF unp this] obtain e where e: "cells h a = Some e" by auto
  with keyedD(1) [OF k] na have "key e = k'" by simp
  moreover from e have "deref h (Addr a) = Some e" by simp
  ultimately show ?thesis
    unfolding registered_keys_iff using p by blast
qed

text \<open>
  The elements of \<open>lru_\<close> have to be live: \<open>Prune\<close> leaves the entry it destroys in
  \<open>lru_\<close> (claim C1), and the eviction loop then reads \<open>back->key\<close> of that entry. Here
  after \<open>Insert(1, 10)\<close>, \<open>Release\<close> of the returned handle and \<open>Prune()\<close> with
  capacity 2.
\<close>

lemma Insert_reads_pruned_entry:
  "(case run [OpInsert (1::nat) (10::nat) 1, OpRelease (Addr 0), OpPrune] (init 2) of
      Inl err \<Rightarrow> False
    | Inr s \<Rightarrow> \<not> unpinned s \<and> Insert 2 20 5 s = Inl InvalidHandle)"
  by (simp add: cache_defs unpinned_def)

text \<open>
  Claim C10, as amended. Take a cache reached from the empty one by calls that have run
  to completion. Let no entry be pinned by a caller (\<open>unpinned\<close>): every element of
  \<open>lru_\<close> is a live entry with pin count 1, so that none is held by a caller and none
  has been destroyed and left in the list, and \<open>usage_\<close> is the sum of their charges, so
  that no entry survives outside the list. Let \<open>k\<close> not be registered and let
  \<open>usage_ + c\<close> not wrap. Then \<open>Insert(k, v, c)\<close> with \<open>c\<close> greater than the
  capacity returns a handle and leaves \<open>lru_\<close> empty: the new entry is unregistered with
  all the others, and \<open>Lookup\<close> finds no key. The returned handle still holds \<open>k\<close>,
  \<open>v\<close> and \<open>c\<close> with one pin, \<open>usage_\<close> is \<open>c\<close>, and \<open>Release\<close> of the
  handle destroys the entry and brings \<open>usage_\<close> to 0.
\<close>

theorem oversized_insert:
  fixes h :: "('k, 'v) heap"
  assumes reach: "run xs (init n) = Inr (h, c)"
    and unp: "unpinned (h, c)"
    and fresh: "table c k = None"
    and nowrap: "unat (usage c) + unat ch < 2 ^ 64"
    and big: "capacity c < ch"
  shows "\<exists>h' c'. Insert k v ch (h, c) = Inr (Addr (next_addr h), h', c') \<and> lru c' = [] \<and>
     (\<forall>k'. Lookup k' (h', c') = Inr (nullptr, h', c')) \<and>
     cells h' (next_addr h) = Some \<lparr>key = k, val = v, refs = 1, charge = ch\<rparr> \<and>
     usage c' = ch \<and>
     (\<exists>h'' c''. Release (Addr (next_addr h)) (h', c') = Inr (h'', c'') \<and>
        cells h'' (next_addr h) = None \<and> usage c'' = 0)"
proof -
  have keys: "\<forall>k'. table c k' \<noteq> None \<longrightarrow> k' \<in> set (registered_keys (h, c))"
    using reachable_table_keys [OF reach unp] by blast
  from unp have "unat (usage c) = registered_charge (h, c)"
    by (simp add: unpinned_def)
  with nowrap have "registered_charge (h, c) + unat ch < 2 ^ 64"
    by simp
  moreover have "lru_ok (h, c)"
    using run_acct_lru_ok [OF reach init_acct init_lru_ok] by simp
  ultimately show ?thesis
    using unp keys fresh big by (intro Insert_evicts_all)
qed

text \<open>
  The theorem after \<open>Insert(1, 10)\<close>, \<open>Insert(2, 20)\<close> and the release of both
  handles, with capacity 2: \<open>Insert(3, 30, 5)\<close> leaves nothing registered.
\<close>

theorem oversized_insert_witness:
  "\<exists>h c. run [OpInsert (1::nat) (10::nat) 1, OpRelease (Addr 0), OpInsert 2 20 1, OpRelease (Addr 1)]
         (init 2) = Inr (h, c) \<and>
     unpinned (h, c) \<and> set (registered_keys (h, c)) = {1, 2} \<and> table c 3 = None \<and>
     usage c = 2 \<and> capacity c < 5 \<and>
     (\<exists>h' c'. Insert 3 30 5 (h, c) = Inr (Addr 2, h', c') \<and> lru c' = [] \<and>
        Lookup 1 (h', c') = Inr (nullptr, h', c') \<and> Lookup 3 (h', c') = Inr (nullptr, h', c') \<and>
        cells h' 2 = Some \<lparr>key = 3, val = 30, refs = 1, charge = 5\<rparr> \<and> usage c' = 5)"
proof -
  let ?xs = "[OpInsert (1::nat) (10::nat) 1, OpRelease (Addr 0), OpInsert 2 20 1, OpRelease (Addr 1)]"
  obtain h c where run: "run ?xs (init 2) = Inr (h, c)"
    by (simp add: cache_defs)
  then have unp: "unpinned (h, c)" and rk: "set (registered_keys (h, c)) = {1, 2}"
    and fresh: "table c 3 = None" and us: "usage c = 2"
    and big: "capacity c < 5" and na: "next_addr h = 2"
    by (auto simp: cache_defs unpinned_def registered_keys_def registered_charge_def charge_at_def)
  from us have nowrap: "unat (usage c) + unat (5 :: size_t) < 2 ^ 64"
    by simp
  from oversized_insert [OF run unp fresh nowrap big, of 30] na
  show ?thesis
    using run unp rk fresh us big by auto
qed

text \<open>
  Claim C10 as stated, for every charge above the capacity: with capacity 10 and one
  unpinned entry of charge 5, \<open>Insert(2, 20, 18446744073709551615)\<close> wraps
  \<open>usage_\<close> to 4, which is below the capacity. Nothing is evicted and both keys are
  found.
\<close>

theorem oversized_insert_wraps:
  "(case run [OpInsert (1::nat) (10::nat) 5, OpRelease (Addr 0)] (init 10) of
      Inl err \<Rightarrow> False
    | Inr s \<Rightarrow> unpinned s \<and> capacity (snd s) < 18446744073709551615 \<and>
        (case Insert 2 20 18446744073709551615 s of
           Inl err \<Rightarrow> False
         | Inr (p, s') \<Rightarrow> usage (snd s') = 4 \<and> length (lru (snd s')) = 2 \<and> found 2 s' \<and> found 1 s'))"
  by (simp add: cache_defs found_def unpinned_def registered_charge_def charge_at_def)

end
